theory Spec2Isabelle
  imports Main "HOL-Library.Word" "HOL-Library.Multiset"
begin

section \<open>Pool: the thread pool of Source/Pool.cpp\<close>

text \<open>
  The development follows \<^verbatim>\<open>Source/Pool.cpp\<close> (class \<^verbatim>\<open>CThreadPool\<close>), in its Windows
  build.

  \<^item> \<^verbatim>\<open>size_t\<close> is a 64-bit word, \<^verbatim>\<open>DWORD\<close>, \<^verbatim>\<open>UINT\<close> and \<^verbatim>\<open>int\<close> are 32-bit words
    (\<^verbatim>\<open>int\<close> read with \<open>sint\<close>).
  \<^item> A callback receives its two opaque parameters and the task number; what it does
    to the rest of the program is a function on a user state \<open>'u\<close>. Callbacks do not
    call back into the pool.
  \<^item> The \<^verbatim>\<open>blockwait\<close> counter of a \<^verbatim>\<open>RunTask\<close> call is a local of that call; tasks point
    to it. The model keeps these counters in a store from addresses to \<^verbatim>\<open>size_t\<close>, which
    keeps a counter also after its call has returned.
  \<^item> A semaphore is its count; a \<^verbatim>\<open>NULL\<close> handle is \<open>None\<close>.
  \<^item> A loop that need not end returns an option, \<open>None\<close> when it runs for ever.
  \<^item> The destructor is not part of the model: a pool is followed from its creation on.
\<close>

subsection \<open>Data\<close>

datatype TASK_RETURN = TR_OK | TR_RERUN | TR_REQUEUE

type_synonym size_t = "64 word"
type_synonym DWORD = "32 word"
type_synonym addr = nat

type_synonym ('p, 'u) TASK_CALLBACK = "'p \<Rightarrow> 'p \<Rightarrow> size_t \<Rightarrow> 'u \<Rightarrow> TASK_RETURN \<times> 'u"

record ('p, 'u) STaskInfo =
  m_Task :: "('p, 'u) TASK_CALLBACK"
  m_Param0 :: 'p
  m_Param1 :: 'p
  m_TaskNumber :: size_t
  m_pActionRef :: "addr option"

record ('p, 'u) CThreadPool =
  m_TaskList :: "('p, 'u) STaskInfo list"
  m_hThreads :: size_t
  hSemQuit :: "nat option"
  hSemRun :: "nat option"
  heap :: "addr \<Rightarrow> size_t"
  world :: 'u

subsection \<open>STaskInfo and the queue\<close>

text \<open>The constructor (lines 70-82): it increments the counter it is given.\<close>

definition STaskInfo_ctor ::
  "('p, 'u) TASK_CALLBACK \<Rightarrow> 'p \<Rightarrow> 'p \<Rightarrow> size_t \<Rightarrow> addr option \<Rightarrow> (addr \<Rightarrow> size_t)
     \<Rightarrow> ('p, 'u) STaskInfo \<times> (addr \<Rightarrow> size_t)" where
  "STaskInfo_ctor task param0 param1 task_number pactionref h =
     (\<lparr>m_Task = task, m_Param0 = param0, m_Param1 = param1,
       m_TaskNumber = task_number, m_pActionRef = pactionref\<rparr>,
      (case pactionref of None \<Rightarrow> h | Some a \<Rightarrow> h(a := h a + 1)))"

text \<open>
  \<^verbatim>\<open>GetNextTask\<close> (lines 101-117): the task written to the out-parameter when the
  result is \<^verbatim>\<open>true\<close>, \<open>None\<close> when it is \<^verbatim>\<open>false\<close>, and the pool.
\<close>

definition GetNextTask :: "('p, 'u) CThreadPool \<Rightarrow> ('p, 'u) STaskInfo option \<times> ('p, 'u) CThreadPool" where
  "GetNextTask s =
     (case m_TaskList s of
        [] \<Rightarrow> (None, s)
      | front # rest \<Rightarrow> (Some front, s\<lparr>m_TaskList := rest\<rparr>))"

text \<open>Invoking a task's callback once (line 133, line 318).\<close>

definition invoke :: "('p, 'u) STaskInfo \<Rightarrow> 'u \<Rightarrow> TASK_RETURN \<times> 'u" where
  "invoke task w = m_Task task (m_Param0 task) (m_Param1 task) (m_TaskNumber task) w"

text \<open>\<^verbatim>\<open>(*(task.m_pActionRef))--\<close> behind its null test (lines 145-148, 320-323).\<close>

definition release_ref :: "('p, 'u) STaskInfo \<Rightarrow> (addr \<Rightarrow> size_t) \<Rightarrow> (addr \<Rightarrow> size_t)" where
  "release_ref task h = (case m_pActionRef task of None \<Rightarrow> h | Some a \<Rightarrow> h(a := h a - 1))"

subsection \<open>The worker\<close>

text \<open>
  The \<^verbatim>\<open>do ... while (ret == TR_RERUN)\<close> loop of lines 131-135. It need not end, so it
  returns an option: \<open>None\<close> is the loop that runs forever.
\<close>

partial_function (option) rerun_loop ::
  "('p, 'u) STaskInfo \<Rightarrow> 'u \<Rightarrow> (TASK_RETURN \<times> 'u) option" where
  "rerun_loop task w =
     (case invoke task w of (ret, w') \<Rightarrow>
        if ret = TR_RERUN then rerun_loop task w' else Some (ret, w'))"

text \<open>Lines 137-148: what the worker does with the disposition that ended the loop.\<close>

definition dispose :: "('p, 'u) STaskInfo \<Rightarrow> TASK_RETURN \<Rightarrow> ('p, 'u) CThreadPool \<Rightarrow> ('p, 'u) CThreadPool" where
  "dispose task ret s =
     (if ret = TR_REQUEUE then s\<lparr>m_TaskList := m_TaskList s @ [task]\<rparr>
      else s\<lparr>heap := release_ref task (heap s)\<rparr>)"

text \<open>The body of the \<^verbatim>\<open>while (GetNextTask(task))\<close> loop for one dequeued task (lines 130-150).\<close>

definition run_one :: "('p, 'u) STaskInfo \<Rightarrow> ('p, 'u) CThreadPool \<Rightarrow> ('p, 'u) CThreadPool option" where
  "run_one task s =
     (case rerun_loop task (world s) of
        None \<Rightarrow> None
      | Some (ret, w') \<Rightarrow> Some (dispose task ret (s\<lparr>world := w'\<rparr>)))"

text \<open>The loop of lines 128-151, run by one worker with no other thread interfering.\<close>

partial_function (option) drain :: "('p, 'u) CThreadPool \<Rightarrow> ('p, 'u) CThreadPool option" where
  "drain s =
     (case GetNextTask s of
        (None, s') \<Rightarrow> Some s'
      | (Some task, s') \<Rightarrow> Option.bind (run_one task s') drain)"

subsection \<open>Semaphores\<close>

text \<open>
  \<^verbatim>\<open>ReleaseSemaphore(h, n, NULL)\<close> of the Win32 API on a semaphore of maximum count
  \<open>maxc\<close>: the count grows by \<open>n\<close>, unless that would exceed the maximum, in which case
  the call fails and the count stays.
\<close>

definition ReleaseSemaphore :: "nat \<Rightarrow> nat \<Rightarrow> nat \<Rightarrow> nat" where
  "ReleaseSemaphore maxc n c = (if c + n \<le> maxc then c + n else c)"

text \<open>Lines 272-273: the run signal is raised if the handle exists.\<close>

definition signal_run :: "('p, 'u) CThreadPool \<Rightarrow> ('p, 'u) CThreadPool" where
  "signal_run s =
     (case hSemRun s of
        None \<Rightarrow> s
      | Some c \<Rightarrow> s\<lparr>hSemRun := Some (ReleaseSemaphore (unat (m_hThreads s)) (unat (m_hThreads s)) c)\<rparr>)"

subsection \<open>Construction\<close>

text \<open>\<^verbatim>\<open>Initialize\<close> (lines 177-201) on a fresh object, with the store and user state given.\<close>

definition Initialize :: "size_t \<Rightarrow> (addr \<Rightarrow> size_t) \<Rightarrow> 'u \<Rightarrow> ('p, 'u) CThreadPool" where
  "Initialize thread_count h w =
     (if thread_count \<noteq> 0
      then \<lparr>m_TaskList = [], m_hThreads = thread_count, hSemQuit = Some 0, hSemRun = Some 0,
            heap = h, world = w\<rparr>
      else \<lparr>m_TaskList = [], m_hThreads = 0, hSemQuit = None, hSemRun = None,
            heap = h, world = w\<rparr>)"

text \<open>
  \<^verbatim>\<open>std::max<int>(1, dwNumberOfProcessors + core_count_adjustment)\<close> (line 210): the sum is
  formed in 32 bits, both arguments are then read as \<^verbatim>\<open>int\<close>.
\<close>

definition max_int :: "32 word \<Rightarrow> 32 word \<Rightarrow> 32 word" where
  "max_int a b = (if sint a < sint b then b else a)"

definition adjusted_cores :: "DWORD \<Rightarrow> 32 word \<Rightarrow> size_t" where
  "adjusted_cores dwNumberOfProcessors core_count_adjustment =
     scast (max_int 1 (dwNumberOfProcessors + core_count_adjustment))"

text \<open>The two constructors (lines 203-216), and the factories of lines 333-342.\<close>

definition Create_cores ::
  "DWORD \<Rightarrow> size_t \<Rightarrow> 32 word \<Rightarrow> (addr \<Rightarrow> size_t) \<Rightarrow> 'u \<Rightarrow> ('p, 'u) CThreadPool" where
  "Create_cores dwNumberOfProcessors threads_per_core core_count_adjustment h w =
     Initialize (threads_per_core * adjusted_cores dwNumberOfProcessors core_count_adjustment) h w"

definition Create_count :: "size_t \<Rightarrow> (addr \<Rightarrow> size_t) \<Rightarrow> 'u \<Rightarrow> ('p, 'u) CThreadPool" where
  "Create_count thread_count h w = Initialize thread_count h w"

text \<open>\<^verbatim>\<open>GetNumThreads\<close> (lines 254-257): the size goes through \<^verbatim>\<open>UINT\<close>.\<close>

definition GetNumThreads :: "('p, 'u) CThreadPool \<Rightarrow> size_t" where
  "GetNumThreads s = ucast (ucast (m_hThreads s) :: 32 word)"

subsection \<open>The public operations\<close>

text \<open>
  The loop of lines 265-268, for \<open>i\<close> from 0 while \<open>i < numtimes\<close>, inside the critical
  section.
\<close>

definition push_task ::
  "('p, 'u) TASK_CALLBACK \<Rightarrow> 'p \<Rightarrow> 'p \<Rightarrow> addr option \<Rightarrow> nat \<Rightarrow> ('p, 'u) CThreadPool \<Rightarrow> ('p, 'u) CThreadPool" where
  "push_task func param0 param1 ref i s =
     (case STaskInfo_ctor func param0 param1 (of_nat i) ref (heap s) of
        (t, h') \<Rightarrow> s\<lparr>m_TaskList := m_TaskList s @ [t], heap := h'\<rparr>)"

definition enqueue_loop ::
  "('p, 'u) TASK_CALLBACK \<Rightarrow> 'p \<Rightarrow> 'p \<Rightarrow> size_t \<Rightarrow> addr option \<Rightarrow> ('p, 'u) CThreadPool \<Rightarrow> ('p, 'u) CThreadPool" where
  "enqueue_loop func param0 param1 numtimes ref s =
     fold (push_task func param0 param1 ref) [0..<unat numtimes] s"

text \<open>
  \<^verbatim>\<open>RunTask\<close> up to the wait (lines 261-273): \<open>blockwait\<close> is the address of the local
  \<^verbatim>\<open>blockwait\<close>, set to 0 on entry.
\<close>

definition RunTask_submit ::
  "addr \<Rightarrow> ('p, 'u) TASK_CALLBACK \<Rightarrow> 'p \<Rightarrow> 'p \<Rightarrow> size_t \<Rightarrow> bool \<Rightarrow> ('p, 'u) CThreadPool \<Rightarrow> ('p, 'u) CThreadPool" where
  "RunTask_submit blockwait func param0 param1 numtimes block s =
     signal_run
       (enqueue_loop func param0 param1 numtimes (if block then Some blockwait else None)
          (s\<lparr>heap := (heap s)(blockwait := 0)\<rparr>))"

text \<open>
  The wait of lines 277-280. Between two tests of the counter the other threads run:
  \<open>env\<close> is what they do to the pool during one \<^verbatim>\<open>Sleep(1)\<close>. \<open>None\<close> is the wait that
  never ends.
\<close>

partial_function (option) spin ::
  "(('p, 'u) CThreadPool \<Rightarrow> ('p, 'u) CThreadPool) \<Rightarrow> addr \<Rightarrow> ('p, 'u) CThreadPool \<Rightarrow> ('p, 'u) CThreadPool option" where
  "spin env blockwait s =
     (if heap s blockwait \<noteq> 0 then spin env blockwait (env s) else Some s)"

text \<open>\<^verbatim>\<open>RunTask\<close> (lines 259-284): the returned flag and the pool.\<close>

definition RunTask ::
  "(('p, 'u) CThreadPool \<Rightarrow> ('p, 'u) CThreadPool) \<Rightarrow> addr \<Rightarrow> ('p, 'u) TASK_CALLBACK \<Rightarrow> 'p \<Rightarrow> 'p \<Rightarrow> size_t \<Rightarrow> bool
     \<Rightarrow> ('p, 'u) CThreadPool \<Rightarrow> (bool \<times> ('p, 'u) CThreadPool) option" where
  "RunTask env blockwait func param0 param1 numtimes block s =
     (let s1 = RunTask_submit blockwait func param0 param1 numtimes block s
      in if m_hThreads s1 \<noteq> 0 \<and> block
         then map_option (Pair True) (spin env blockwait s1)
         else Some (True, s1))"

text \<open>\<^verbatim>\<open>PurgeAllPendingTasks\<close> (lines 301-308).\<close>

definition PurgeAllPendingTasks :: "('p, 'u) CThreadPool \<Rightarrow> ('p, 'u) CThreadPool" where
  "PurgeAllPendingTasks s = s\<lparr>m_TaskList := []\<rparr>"

text \<open>
  \<^verbatim>\<open>Flush\<close> (lines 310-328): the iteration over the queue, then \<^verbatim>\<open>clear\<close>. The value the
  callback returns is dropped (line 318).
\<close>

fun Flush_loop :: "('p, 'u) STaskInfo list \<Rightarrow> (addr \<Rightarrow> size_t) \<times> 'u \<Rightarrow> (addr \<Rightarrow> size_t) \<times> 'u" where
  "Flush_loop [] hw = hw"
| "Flush_loop (task # rest) (h, w) = Flush_loop rest (release_ref task h, snd (invoke task w))"

definition Flush :: "('p, 'u) CThreadPool \<Rightarrow> ('p, 'u) CThreadPool" where
  "Flush s =
     (case Flush_loop (m_TaskList s) (heap s, world s) of
        (h, w) \<Rightarrow> s\<lparr>m_TaskList := [], heap := h, world := w\<rparr>)"

text \<open>
  \<^verbatim>\<open>WaitForAllTasks\<close> (lines 286-299). The parameter \<^verbatim>\<open>milliseconds\<close> is not used by the
  body. As in \<open>spin\<close>, \<open>env\<close> is what the other threads do during one \<^verbatim>\<open>Sleep(1)\<close>.
\<close>

partial_function (option) wait_empty ::
  "(('p, 'u) CThreadPool \<Rightarrow> ('p, 'u) CThreadPool) \<Rightarrow> ('p, 'u) CThreadPool \<Rightarrow> ('p, 'u) CThreadPool option" where
  "wait_empty env s = (if m_TaskList s \<noteq> [] then wait_empty env (env s) else Some s)"

definition WaitForAllTasks ::
  "(('p, 'u) CThreadPool \<Rightarrow> ('p, 'u) CThreadPool) \<Rightarrow> 32 word \<Rightarrow> ('p, 'u) CThreadPool \<Rightarrow> ('p, 'u) CThreadPool option" where
  "WaitForAllTasks env milliseconds s =
     (if m_hThreads s \<noteq> 0 then wait_empty env s else Some (Flush s))"

subsection \<open>Threads\<close>

text \<open>
  The pool is shared by its workers and by the threads that call it. The threads are
  interleaved at the granularity of the source: one step is one statement acting on
  shared data, or a whole critical section of \<^verbatim>\<open>m_csTaskList\<close>. Only the critical
  section of \<^verbatim>\<open>RunTask\<close> is taken apart, one \<^verbatim>\<open>push_back\<close> a step; while a call is inside,
  no step that needs the critical section is taken. Any number of threads may call the
  pool, in any order.

  In this system the decrement of a counter by a worker (line 147) is one step. The
  source makes it on a plain \<^verbatim>\<open>size_t\<close>, outside the critical section: a read and a
  write, between which the other threads run. The subsection after this one takes the
  two apart. A run of the system is the run of the program in which every write of a
  decrement follows its read at once; the runs in which two decrements overlap are
  runs of that finer machine only. \<^verbatim>\<open>Flush\<close> and \<^verbatim>\<open>PurgeAllPendingTasks\<close>, which keep the
  critical section from their first statement to their last, are one step each, in the
  system and in the machine: no decrement of a worker comes between the read and the
  write of a decrement that \<^verbatim>\<open>Flush\<close> makes.

  Where a worker stands in \<^verbatim>\<open>WorkerThreadProc\<close> (lines 119-153): blocked at line 123,
  at the test of the loop of line 128, about to invoke the callback of the task it
  holds (line 133), past the loop of lines 131-135 with the disposition that ended it,
  or out of its outer loop.
\<close>

datatype ('p, 'u) worker =
    Parked
  | Draining
  | Running "('p, 'u) STaskInfo"
  | Returned "('p, 'u) STaskInfo" TASK_RETURN
  | Terminated

text \<open>
  Where a call of \<^verbatim>\<open>RunTask\<close> stands: in the loop of lines 265-268 with its variable
  \<open>i\<close>, at the wait of lines 275-281, or returned.
\<close>

datatype call_pc = Enqueuing nat | Waiting | Finished

record ('p, 'u) call =
  c_func :: "('p, 'u) TASK_CALLBACK"
  c_param0 :: 'p
  c_param1 :: 'p
  c_numtimes :: size_t
  c_block :: bool
  c_pc :: call_pc

text \<open>
  The whole system. A call is named by the address of its \<^verbatim>\<open>blockwait\<close>, which is
  taken fresh for every call: the slot of a call that has returned is not given to a
  later call. (On a pool without workers a blocking call returns at once and leaves
  its tasks queued, pointing to a local of a frame that is gone; the store keeps the
  slot.) \<open>m_csTaskList\<close> is the call inside the critical section.
  The last three fields only record history: the tasks a worker finished with a
  disposition other than \<^verbatim>\<open>TR_RERUN\<close> and \<^verbatim>\<open>TR_REQUEUE\<close>, the tasks \<^verbatim>\<open>Flush\<close> ran, and
  the tasks \<^verbatim>\<open>PurgeAllPendingTasks\<close> discarded. No step reads them.
\<close>

record ('p, 'u) system =
  pool :: "('p, 'u) CThreadPool"
  m_csTaskList :: "addr option"
  workers :: "('p, 'u) worker list"
  calls :: "addr \<Rightarrow> ('p, 'u) call option"
  completed :: "('p, 'u) STaskInfo list"
  flushed :: "('p, 'u) STaskInfo list"
  purged :: "('p, 'u) STaskInfo list"

datatype ('p, 'u) action =
    Worker nat
  | RunTask_enter addr "('p, 'u) TASK_CALLBACK" 'p 'p size_t bool
  | RunTask_step addr
  | Call_PurgeAllPendingTasks
  | Call_Flush
  | Call_WaitForAllTasks

text \<open>
  \<^verbatim>\<open>WaitForMultipleObjects\<close> on the two semaphores (line 123): the lowest signalled
  index wins and that semaphore is taken once; with none signalled the worker stays
  blocked (\<open>None\<close>).
\<close>

definition wait_signal :: "('p, 'u) CThreadPool \<Rightarrow> (bool \<times> ('p, 'u) CThreadPool) option" where
  "wait_signal s =
     (case hSemQuit s of
        Some (Suc q) \<Rightarrow> Some (True, s\<lparr>hSemQuit := Some q\<rparr>)
      | _ \<Rightarrow> (case hSemRun s of
                Some (Suc r) \<Rightarrow> Some (False, s\<lparr>hSemRun := Some r\<rparr>)
              | _ \<Rightarrow> None))"

text \<open>One step of worker \<open>i\<close>.\<close>

definition worker_step :: "nat \<Rightarrow> ('p, 'u) system \<Rightarrow> ('p, 'u) system option" where
  "worker_step i sys =
     (if i < length (workers sys) then
        (case workers sys ! i of
           Parked \<Rightarrow>
             (case wait_signal (pool sys) of
                None \<Rightarrow> None
              | Some (quit, s') \<Rightarrow>
                  Some (sys\<lparr>pool := s', workers := (workers sys)[i := if quit then Terminated else Draining]\<rparr>))
         | Draining \<Rightarrow>
             (if m_csTaskList sys = None then
                (case GetNextTask (pool sys) of
                   (None, s') \<Rightarrow> Some (sys\<lparr>pool := s', workers := (workers sys)[i := Parked]\<rparr>)
                 | (Some task, s') \<Rightarrow> Some (sys\<lparr>pool := s', workers := (workers sys)[i := Running task]\<rparr>))
              else None)
         | Running task \<Rightarrow>
             (case invoke task (world (pool sys)) of
                (ret, w') \<Rightarrow>
                  Some (sys\<lparr>pool := (pool sys)\<lparr>world := w'\<rparr>,
                            workers := (workers sys)[i := if ret = TR_RERUN then Running task else Returned task ret]\<rparr>))
         | Returned task ret \<Rightarrow>
             (if ret = TR_REQUEUE \<and> m_csTaskList sys \<noteq> None then None
              else Some (sys\<lparr>pool := dispose task ret (pool sys),
                             workers := (workers sys)[i := Draining],
                             completed := (if ret = TR_REQUEUE then completed sys else completed sys @ [task])\<rparr>))
         | Terminated \<Rightarrow> None)
      else None)"

text \<open>
  The steps of a \<^verbatim>\<open>RunTask\<close> call: entering (line 261 and \<^verbatim>\<open>EnterCriticalSection\<close>), then
  one \<^verbatim>\<open>push_back\<close> at a time, then leaving the critical section and raising the run
  signal (lines 270-273), then the test of lines 275-281, which lets the call return
  only when it fails.
\<close>

definition must_wait :: "('p, 'u) CThreadPool \<Rightarrow> bool \<Rightarrow> addr \<Rightarrow> bool" where
  "must_wait s block blockwait \<longleftrightarrow> m_hThreads s \<noteq> 0 \<and> block \<and> heap s blockwait \<noteq> 0"

definition enter_step ::
  "addr \<Rightarrow> ('p, 'u) TASK_CALLBACK \<Rightarrow> 'p \<Rightarrow> 'p \<Rightarrow> size_t \<Rightarrow> bool \<Rightarrow> ('p, 'u) system \<Rightarrow> ('p, 'u) system option" where
  "enter_step a func param0 param1 numtimes block sys =
     (if calls sys a = None \<and> m_csTaskList sys = None
      then Some (sys\<lparr>pool := (pool sys)\<lparr>heap := (heap (pool sys))(a := 0)\<rparr>,
                     m_csTaskList := Some a,
                     calls := (calls sys)(a \<mapsto> \<lparr>c_func = func, c_param0 = param0, c_param1 = param1,
                                                  c_numtimes = numtimes, c_block = block, c_pc = Enqueuing 0\<rparr>)\<rparr>)
      else None)"

definition call_step :: "addr \<Rightarrow> ('p, 'u) system \<Rightarrow> ('p, 'u) system option" where
  "call_step a sys =
     (case calls sys a of
        None \<Rightarrow> None
      | Some c \<Rightarrow>
          (case c_pc c of
             Enqueuing i \<Rightarrow>
               (if i < unat (c_numtimes c)
                then Some (sys\<lparr>pool := push_task (c_func c) (c_param0 c) (c_param1 c)
                                          (if c_block c then Some a else None) i (pool sys),
                               calls := (calls sys)(a \<mapsto> c\<lparr>c_pc := Enqueuing (Suc i)\<rparr>)\<rparr>)
                else Some (sys\<lparr>pool := signal_run (pool sys),
                               m_csTaskList := None,
                               calls := (calls sys)(a \<mapsto> c\<lparr>c_pc := Waiting\<rparr>)\<rparr>))
           | Waiting \<Rightarrow>
               (if must_wait (pool sys) (c_block c) a then None
                else Some (sys\<lparr>calls := (calls sys)(a \<mapsto> c\<lparr>c_pc := Finished\<rparr>)\<rparr>))
           | Finished \<Rightarrow> None))"

definition purge_step :: "('p, 'u) system \<Rightarrow> ('p, 'u) system option" where
  "purge_step sys =
     (if m_csTaskList sys = None
      then Some (sys\<lparr>pool := PurgeAllPendingTasks (pool sys),
                     purged := purged sys @ m_TaskList (pool sys)\<rparr>)
      else None)"

definition flush_step :: "('p, 'u) system \<Rightarrow> ('p, 'u) system option" where
  "flush_step sys =
     (if m_csTaskList sys = None
      then Some (sys\<lparr>pool := Flush (pool sys),
                     flushed := flushed sys @ m_TaskList (pool sys)\<rparr>)
      else None)"

text \<open>
  A call of \<^verbatim>\<open>WaitForAllTasks\<close> returns at once when it finds the queue empty, keeps
  polling otherwise (\<open>None\<close>: no step), and is \<^verbatim>\<open>Flush\<close> on a pool without threads.
\<close>

definition wait_step :: "('p, 'u) system \<Rightarrow> ('p, 'u) system option" where
  "wait_step sys =
     (if m_hThreads (pool sys) \<noteq> 0
      then (if m_TaskList (pool sys) = [] then Some sys else None)
      else flush_step sys)"

fun step :: "('p, 'u) action \<Rightarrow> ('p, 'u) system \<Rightarrow> ('p, 'u) system option" where
  "step (Worker i) sys = worker_step i sys"
| "step (RunTask_enter a func param0 param1 numtimes block) sys =
     enter_step a func param0 param1 numtimes block sys"
| "step (RunTask_step a) sys = call_step a sys"
| "step Call_PurgeAllPendingTasks sys = purge_step sys"
| "step Call_Flush sys = flush_step sys"
| "step Call_WaitForAllTasks sys = wait_step sys"

text \<open>A schedule is a list of actions; it runs as far as every action is enabled.\<close>

fun run :: "('p, 'u) action list \<Rightarrow> ('p, 'u) system \<Rightarrow> ('p, 'u) system option" where
  "run [] sys = Some sys"
| "run (a # as) sys = Option.bind (step a sys) (run as)"

text \<open>The system after \<^verbatim>\<open>Create(thread_count)\<close>: every worker parked at line 123.\<close>

definition boot :: "size_t \<Rightarrow> (addr \<Rightarrow> size_t) \<Rightarrow> 'u \<Rightarrow> ('p, 'u) system" where
  "boot thread_count h w =
     \<lparr>pool = Create_count thread_count h w, m_csTaskList = None,
      workers = replicate (unat thread_count) Parked, calls = (\<lambda>a. None),
      completed = [], flushed = [], purged = []\<rparr>"

subsection \<open>The decrement as a read and a write\<close>

text \<open>
  \<^verbatim>\<open>(*(task.m_pActionRef))--\<close> (line 147) reads the counter and writes back the value
  read less one. The machine is the system together with, for every worker, the value
  it has read from the counter of its task and not yet written back. An access of the
  machine is the read of a worker (\<open>Load\<close>), its write (\<open>Store\<close>), or a step of the system
  that is not such a decrement (\<open>Plain\<close>).
\<close>

datatype ('p, 'u) access = Plain "('p, 'u) action" | Load nat | Store nat

record ('p, 'u) machine =
  shared :: "('p, 'u) system"
  fetched :: "nat \<Rightarrow> size_t option"

text \<open>
  The task and the counter of a worker that stands at the decrement: past the test of
  line 137 with a disposition other than \<^verbatim>\<open>TR_REQUEUE\<close>, and past the null test of line
  145.
\<close>

fun at_decrement :: "('p, 'u) worker \<Rightarrow> (('p, 'u) STaskInfo \<times> addr) option" where
  "at_decrement (Returned task ret) =
     (if ret = TR_REQUEUE then None else map_option (Pair task) (m_pActionRef task))"
| "at_decrement _ = None"

definition decrementing :: "nat \<Rightarrow> ('p, 'u) system \<Rightarrow> (('p, 'u) STaskInfo \<times> addr) option" where
  "decrementing i sys = (if i < length (workers sys) then at_decrement (workers sys ! i) else None)"

definition load_step :: "nat \<Rightarrow> ('p, 'u) machine \<Rightarrow> ('p, 'u) machine option" where
  "load_step i m =
     (case decrementing i (shared m) of
        None \<Rightarrow> None
      | Some (task, a) \<Rightarrow>
          if fetched m i = None
          then Some (m\<lparr>fetched := (fetched m)(i \<mapsto> heap (pool (shared m)) a)\<rparr>)
          else None)"

definition store_step :: "nat \<Rightarrow> ('p, 'u) machine \<Rightarrow> ('p, 'u) machine option" where
  "store_step i m =
     (case (decrementing i (shared m), fetched m i) of
        (Some (task, a), Some v) \<Rightarrow>
          Some (m\<lparr>shared := (shared m)
                     \<lparr>pool := (pool (shared m))\<lparr>heap := (heap (pool (shared m)))(a := v - 1)\<rparr>,
                      workers := (workers (shared m))[i := Draining],
                      completed := completed (shared m) @ [task]\<rparr>,
                  fetched := (fetched m)(i := None)\<rparr>)
      | _ \<Rightarrow> None)"

text \<open>The steps of the system that the machine makes in two accesses.\<close>

fun needs_access :: "('p, 'u) action \<Rightarrow> ('p, 'u) system \<Rightarrow> bool" where
  "needs_access (Worker i) sys = (decrementing i sys \<noteq> None)"
| "needs_access act sys = False"

fun access_step :: "('p, 'u) access \<Rightarrow> ('p, 'u) machine \<Rightarrow> ('p, 'u) machine option" where
  "access_step (Plain act) m =
     (if needs_access act (shared m) then None
      else map_option (\<lambda>sys'. m\<lparr>shared := sys'\<rparr>) (step act (shared m)))"
| "access_step (Load i) m = load_step i m"
| "access_step (Store i) m = store_step i m"

fun execute :: "('p, 'u) access list \<Rightarrow> ('p, 'u) machine \<Rightarrow> ('p, 'u) machine option" where
  "execute [] m = Some m"
| "execute (x # xs) m = Option.bind (access_step x m) (execute xs)"

definition start :: "size_t \<Rightarrow> (addr \<Rightarrow> size_t) \<Rightarrow> 'u \<Rightarrow> ('p, 'u) machine" where
  "start thread_count h w = \<lparr>shared = boot thread_count h w, fetched = (\<lambda>i. None)\<rparr>"

subsection \<open>Notions used in the statements\<close>

text \<open>The task that iteration \<open>i\<close> of the loop in \<^verbatim>\<open>RunTask\<close> constructs.\<close>

definition new_task ::
  "('p, 'u) TASK_CALLBACK \<Rightarrow> 'p \<Rightarrow> 'p \<Rightarrow> addr option \<Rightarrow> nat \<Rightarrow> ('p, 'u) STaskInfo" where
  "new_task func param0 param1 ref i =
     \<lparr>m_Task = func, m_Param0 = param0, m_Param1 = param1,
      m_TaskNumber = of_nat i, m_pActionRef = ref\<rparr>"

text \<open>The tasks that \<open>k\<close> successive calls of \<^verbatim>\<open>GetNextTask\<close> return, in order.\<close>

fun dequeue_n :: "nat \<Rightarrow> ('p, 'u) CThreadPool \<Rightarrow> ('p, 'u) STaskInfo list" where
  "dequeue_n 0 s = []"
| "dequeue_n (Suc k) s =
     (case GetNextTask s of
        (None, s') \<Rightarrow> []
      | (Some task, s') \<Rightarrow> task # dequeue_n k s')"

text \<open>The user state after \<open>k\<close> invocations of a task's callback in a row.\<close>

primrec after :: "nat \<Rightarrow> ('p, 'u) STaskInfo \<Rightarrow> 'u \<Rightarrow> 'u" where
  "after 0 task w = w"
| "after (Suc k) task w = after k task (snd (invoke task w))"

text \<open>The tasks the workers hold: dequeued and not yet disposed of.\<close>

fun holds :: "('p, 'u) worker \<Rightarrow> ('p, 'u) STaskInfo list" where
  "holds (Running task) = [task]"
| "holds (Returned task ret) = [task]"
| "holds _ = []"

definition hand :: "('p, 'u) worker list \<Rightarrow> ('p, 'u) STaskInfo list" where
  "hand ws = concat (map holds ws)"

definition in_hand :: "('p, 'u) system \<Rightarrow> ('p, 'u) STaskInfo list" where
  "in_hand sys = hand (workers sys)"

text \<open>The task numbers of the member tasks of call \<open>a\<close> in a collection of tasks.\<close>

definition members :: "addr \<Rightarrow> ('p, 'u) STaskInfo list \<Rightarrow> size_t multiset" where
  "members a ts = mset (map m_TaskNumber (filter (\<lambda>t. m_pActionRef t = Some a) ts))"

text \<open>How many member tasks call \<open>a\<close> has constructed so far.\<close>

definition constructed :: "('p, 'u) system \<Rightarrow> addr \<Rightarrow> nat" where
  "constructed sys a =
     (case calls sys a of
        None \<Rightarrow> 0
      | Some c \<Rightarrow>
          if c_block c
          then (case c_pc c of Enqueuing i \<Rightarrow> i | _ \<Rightarrow> unat (c_numtimes c))
          else 0)"

text \<open>
  Where the member tasks of call \<open>a\<close> are: in the queue, in a worker's hand, finished by
  a worker, run by \<^verbatim>\<open>Flush\<close> or purged.
\<close>

definition census :: "('p, 'u) system \<Rightarrow> addr \<Rightarrow> size_t multiset" where
  "census sys a =
     members a (m_TaskList (pool sys)) + members a (in_hand sys) + members a (completed sys)
       + members a (flushed sys) + members a (purged sys)"

text \<open>The member tasks nobody has finished: queued, in a worker's hand, or purged.\<close>

definition outstanding :: "('p, 'u) system \<Rightarrow> addr \<Rightarrow> nat" where
  "outstanding sys a =
     size (members a (m_TaskList (pool sys))) + size (members a (in_hand sys))
       + size (members a (purged sys))"

text \<open>The member tasks that have left the queue for good or are in a worker's hand.\<close>

definition moved :: "('p, 'u) system \<Rightarrow> addr \<Rightarrow> size_t multiset" where
  "moved sys a =
     members a (in_hand sys) + members a (completed sys) + members a (flushed sys)
       + members a (purged sys)"

text \<open>
  The invariant of the system, for one address: every member task constructed so far
  is in exactly one place; the counter of a call counts its outstanding member tasks;
  a call that is still in its loop holds the critical section, and none of its tasks
  has left the queue.
\<close>

definition consistent_at :: "('p, 'u) system \<Rightarrow> addr \<Rightarrow> bool" where
  "consistent_at sys a \<longleftrightarrow>
     census sys a = mset (map of_nat [0..<constructed sys a])
     \<and> (calls sys a \<noteq> None \<longrightarrow> unat (heap (pool sys) a) = outstanding sys a)
     \<and> (\<forall>c i. calls sys a = Some c \<and> c_pc c = Enqueuing i \<longrightarrow>
           m_csTaskList sys = Some a \<and> i \<le> unat (c_numtimes c) \<and> moved sys a = {#})"

definition consistent :: "('p, 'u) system \<Rightarrow> bool" where
  "consistent sys \<longleftrightarrow> (\<forall>a. consistent_at sys a)"

subsection \<open>Callbacks and schedules used as examples\<close>

text \<open>The user state counts the invocations.\<close>

definition done_at_once :: "(unit, nat) TASK_CALLBACK" where
  "done_at_once p0 p1 n w = (TR_OK, Suc w)"

definition requeue_twice :: "(unit, nat) TASK_CALLBACK" where
  "requeue_twice p0 p1 n w = (if w < 2 then TR_REQUEUE else TR_OK, Suc w)"

definition rerun_four_times :: "(unit, nat) TASK_CALLBACK" where
  "rerun_four_times p0 p1 n w = (if w < 4 then TR_RERUN else TR_OK, Suc w)"

definition rerun_for_ever :: "(unit, nat) TASK_CALLBACK" where
  "rerun_for_ever p0 p1 n w = (TR_RERUN, w)"

definition rerun_then_requeue :: "(unit, nat) TASK_CALLBACK" where
  "rerun_then_requeue p0 p1 n w = (if w < 2 then TR_RERUN else TR_REQUEUE, Suc w)"

definition no_counters :: "addr \<Rightarrow> size_t" where
  "no_counters a = 0"

text \<open>The steps of a call \<^verbatim>\<open>RunTask(f, (), (), 2, true)\<close> up to its wait.\<close>

definition enqueue_two :: "(unit, nat) TASK_CALLBACK \<Rightarrow> (unit, nat) action list" where
  "enqueue_two f = [RunTask_enter 0 f () () 2 True, RunTask_step 0, RunTask_step 0, RunTask_step 0]"

text \<open>
  On three workers, after such a call with a callback that asks to be requeued: workers
  0 and 1 wake up, dequeue one task each and run it; worker 2 wakes up, finds the queue
  empty and goes back to its wait.
\<close>

definition one_idle :: "(unit, nat) action list" where
  "one_idle = enqueue_two requeue_twice
     @ [Worker 0, Worker 0, Worker 0, Worker 1, Worker 1, Worker 1, Worker 2, Worker 2]"

definition after_schedule :: "size_t \<Rightarrow> (unit, nat) action list \<Rightarrow> (unit, nat) system" where
  "after_schedule thread_count acts = the (run acts (boot thread_count no_counters 0))"

text \<open>An environment for the waits: during one \<^verbatim>\<open>Sleep\<close> a worker drains the queue.\<close>

definition drained :: "(unit, nat) CThreadPool \<Rightarrow> (unit, nat) CThreadPool" where
  "drained s = (case drain s of None \<Rightarrow> s | Some s' \<Rightarrow> s')"

text \<open>
  Accesses of the machine with two workers, after a call \<^verbatim>\<open>RunTask(f, (), (), 2, true)\<close>
  whose callback is done at once: each worker wakes up, dequeues one task and runs it.
  Then the two decrements: both reads before both writes, or one decrement after the
  other.
\<close>

definition both_returned :: "(unit, nat) access list" where
  "both_returned =
     map Plain (enqueue_two done_at_once
                  @ [Worker 0, Worker 0, Worker 0, Worker 1, Worker 1, Worker 1])"

definition finish_together :: "(unit, nat) access list" where
  "finish_together = both_returned @ [Load 0, Load 1, Store 0, Store 1]"

definition finish_in_turn :: "(unit, nat) access list" where
  "finish_in_turn = both_returned @ [Load 0, Store 0, Load 1, Store 1]"

definition after_accesses :: "size_t \<Rightarrow> (unit, nat) access list \<Rightarrow> (unit, nat) machine" where
  "after_accesses thread_count xs = the (execute xs (start thread_count no_counters 0))"

section \<open>Properties\<close>

subsection \<open>The queue\<close>

lemma fold_push_list:
  "m_TaskList (fold (push_task f p0 p1 ref) is s) = m_TaskList s @ map (new_task f p0 p1 ref) is"
  by (induction "is" arbitrary: s) (simp_all add: push_task_def STaskInfo_ctor_def new_task_def)

lemma signal_run_list: "m_TaskList (signal_run s) = m_TaskList s"
  by (simp add: signal_run_def split: option.splits)

lemma signal_run_heap: "heap (signal_run s) = heap s"
  by (simp add: signal_run_def split: option.splits)

lemma signal_run_threads: "m_hThreads (signal_run s) = m_hThreads s"
  by (simp add: signal_run_def split: option.splits)

lemma signal_run_world: "world (signal_run s) = world s"
  by (simp add: signal_run_def split: option.splits)

lemma RunTask_submit_list:
  "m_TaskList (RunTask_submit a f p0 p1 n block s) =
     m_TaskList s @ map (new_task f p0 p1 (if block then Some a else None)) [0..<unat n]"
  by (simp add: RunTask_submit_def enqueue_loop_def fold_push_list signal_run_list)

lemma dequeue_n_take: "dequeue_n k s = take k (m_TaskList s)"
  by (induction k arbitrary: s) (auto simp: GetNextTask_def split: list.splits)

lemma number_new_task: "map m_TaskNumber (map (new_task f p0 p1 ref) is) = map of_nat is"
  by (simp add: new_task_def comp_def)

text \<open>
  Claim C5. \<^verbatim>\<open>GetNextTask\<close> takes the task at the front of a non-empty queue and
  leaves the rest; on an empty queue it reports that there is none and changes
  nothing. Successive calls return the queue in its order. \<^verbatim>\<open>RunTask\<close> appends its
  tasks at the tail, numbered 0 to \<open>numtimes - 1\<close> in this order, so that, once the
  tasks queued before them are taken, they are dequeued in the order of their numbers.
\<close>

theorem GetNextTask_fifo:
  "GetNextTask (s\<lparr>m_TaskList := front # rest\<rparr>) = (Some front, s\<lparr>m_TaskList := rest\<rparr>)
   \<and> GetNextTask (s\<lparr>m_TaskList := []\<rparr>) = (None, s\<lparr>m_TaskList := []\<rparr>)
   \<and> dequeue_n k s = take k (m_TaskList s)
   \<and> m_TaskList (RunTask_submit a f p0 p1 n block s) =
       m_TaskList s @ map (new_task f p0 p1 (if block then Some a else None)) [0..<unat n]
   \<and> map m_TaskNumber
        (drop (length (m_TaskList s))
           (dequeue_n (length (m_TaskList s) + unat n) (RunTask_submit a f p0 p1 n block s))) =
       map of_nat [0..<unat n]"
proof (intro conjI)
  show "GetNextTask (s\<lparr>m_TaskList := front # rest\<rparr>) = (Some front, s\<lparr>m_TaskList := rest\<rparr>)"
    by (simp add: GetNextTask_def)
  show "GetNextTask (s\<lparr>m_TaskList := []\<rparr>) = (None, s\<lparr>m_TaskList := []\<rparr>)"
    by (simp add: GetNextTask_def)
  show "dequeue_n k s = take k (m_TaskList s)"
    by (rule dequeue_n_take)
  show "m_TaskList (RunTask_submit a f p0 p1 n block s) =
       m_TaskList s @ map (new_task f p0 p1 (if block then Some a else None)) [0..<unat n]"
    by (rule RunTask_submit_list)
  show "map m_TaskNumber
        (drop (length (m_TaskList s))
           (dequeue_n (length (m_TaskList s) + unat n) (RunTask_submit a f p0 p1 n block s))) =
       map of_nat [0..<unat n]"
    by (simp add: dequeue_n_take RunTask_submit_list number_new_task del: map_map)
qed

subsection \<open>The invariant of the interleaved system\<close>

lemma in_hand_hand: "in_hand sys = hand (workers sys)"
  by (simp add: in_hand_def)

lemma members_Nil [simp]: "members a [] = {#}"
  by (simp add: members_def)

lemma members_Cons [simp]:
  "members a (t # ts) = (if m_pActionRef t = Some a then add_mset (m_TaskNumber t) (members a ts) else members a ts)"
  by (simp add: members_def)

lemma members_append [simp]: "members a (xs @ ys) = members a xs + members a ys"
  by (simp add: members_def)

lemma hand_update:
  "i < length ws \<Longrightarrow>
   members a (hand (ws[i := w'])) + members a (holds (ws ! i)) = members a (hand ws) + members a (holds w')"
proof (induction ws arbitrary: i)
  case Nil
  then show ?case by simp
next
  case (Cons w ws)
  show ?case
  proof (cases i)
    case 0
    then show ?thesis by (simp add: hand_def)
  next
    case (Suc j)
    then have "j < length ws" using Cons.prems by simp
    from Cons.IH [OF this] show ?thesis using Suc by (simp add: hand_def)
  qed
qed

lemma wait_signal_frame:
  "wait_signal s = Some (q, s') \<Longrightarrow> m_TaskList s' = m_TaskList s \<and> heap s' = heap s \<and> world s' = world s \<and> m_hThreads s' = m_hThreads s"
  by (auto simp: wait_signal_def split: option.splits nat.splits)

lemma consistent_at_same:
  assumes "consistent_at sys a"
    and "census sys' a = census sys a" "outstanding sys' a = outstanding sys a"
    and "moved sys' a = moved sys a" "calls sys' a = calls sys a"
    and "m_csTaskList sys' = m_csTaskList sys" "heap (pool sys') a = heap (pool sys) a"
  shows "consistent_at sys' a"
proof -
  have c: "constructed sys' a = constructed sys a"
    using assms(5) by (simp add: constructed_def)
  show ?thesis
    using assms(1) unfolding consistent_at_def c assms(2-7) .
qed

lemma consistent_at_unlocked:
  assumes "consistent_at sys a"
    and "census sys' a = census sys a" "outstanding sys' a = outstanding sys a"
    and "calls sys' a = calls sys a"
    and "m_csTaskList sys = None" "heap (pool sys') a = heap (pool sys) a"
  shows "consistent_at sys' a"
proof -
  have c: "constructed sys' a = constructed sys a"
    using assms(4) by (simp add: constructed_def)
  have no: "\<And>c i. calls sys a = Some c \<Longrightarrow> c_pc c \<noteq> Enqueuing i"
    using assms(1,5) unfolding consistent_at_def by fastforce
  have 1: "census sys' a = mset (map of_nat [0..<constructed sys' a])"
    using assms(1) unfolding consistent_at_def c assms(2) by blast
  have 2: "calls sys' a \<noteq> None \<longrightarrow> unat (heap (pool sys') a) = outstanding sys' a"
    using assms(1) unfolding consistent_at_def assms(3,4,6) by blast
  show ?thesis
    unfolding consistent_at_def using 1 2 no assms(4) by auto
qed

lemma hand_same:
  "i < length ws \<Longrightarrow> holds (ws ! i) = holds w' \<Longrightarrow> members a (hand (ws[i := w'])) = members a (hand ws)"
  using hand_update [of i ws a w'] by simp

lemma hand_take:
  "i < length ws \<Longrightarrow> holds (ws ! i) = [] \<Longrightarrow> holds w' = [t] \<Longrightarrow>
   members a (hand (ws[i := w'])) = members a (hand ws) + members a [t]"
  using hand_update [of i ws a w'] by simp

lemma hand_give:
  "i < length ws \<Longrightarrow> holds (ws ! i) = [t] \<Longrightarrow> holds w' = [] \<Longrightarrow>
   members a (hand (ws[i := w'])) + members a [t] = members a (hand ws)"
  using hand_update [of i ws a w'] by simp

text \<open>A worker that takes a signal changes neither the queue nor a counter.\<close>
lemma consistent_parked:
  assumes "consistent sys" "i < length (workers sys)" "workers sys ! i = Parked"
      "wait_signal (pool sys) = Some (quit, s')"
  shows "consistent (sys\<lparr>pool := s', workers := (workers sys)[i := if quit then Terminated else Draining]\<rparr>)"
  unfolding consistent_def
proof
  fix a
  let ?sys' = "sys\<lparr>pool := s', workers := (workers sys)[i := if quit then Terminated else Draining]\<rparr>"
  note f = wait_signal_frame [OF assms(4)]
  have h: "members a (in_hand ?sys') = members a (in_hand sys)"
    using hand_same [OF assms(2), of "if quit then Terminated else Draining" a] assms(3)
    by (simp add: in_hand_hand)
  show "consistent_at ?sys' a"
    by (rule consistent_at_same [OF assms(1) [unfolded consistent_def, rule_format]]) (simp_all add: census_def outstanding_def moved_def h f)
qed

text \<open>A worker that dequeues moves a task from the queue to its hand.\<close>
lemma consistent_draining:
  assumes "consistent sys" "i < length (workers sys)" "workers sys ! i = Draining" "m_csTaskList sys = None"
  shows "consistent (case GetNextTask (pool sys) of
                   (None, s') \<Rightarrow> sys\<lparr>pool := s', workers := (workers sys)[i := Parked]\<rparr>
                 | (Some task, s') \<Rightarrow> sys\<lparr>pool := s', workers := (workers sys)[i := Running task]\<rparr>)"
proof (cases "m_TaskList (pool sys)")
  case Nil
  let ?sys' = "sys\<lparr>workers := (workers sys)[i := Parked]\<rparr>"
  have "consistent ?sys'"
    unfolding consistent_def
  proof
    fix a
    have h: "members a (in_hand ?sys') = members a (in_hand sys)"
      using hand_same [OF assms(2), of Parked a] assms(3) by (simp add: in_hand_hand)
    show "consistent_at ?sys' a"
      by (rule consistent_at_same [OF assms(1) [unfolded consistent_def, rule_format]]) (simp_all add: census_def outstanding_def moved_def h)
  qed
  then show ?thesis using Nil by (simp add: GetNextTask_def)
next
  case (Cons t rest)
  let ?sys' = "sys\<lparr>pool := (pool sys)\<lparr>m_TaskList := rest\<rparr>, workers := (workers sys)[i := Running t]\<rparr>"
  have "consistent ?sys'"
    unfolding consistent_def
  proof
    fix a
    have h: "members a (in_hand ?sys') = members a (in_hand sys) + members a [t]"
      using hand_take [OF assms(2), of "Running t" t a] assms(3) by (simp add: in_hand_hand)
    show "consistent_at ?sys' a"
      using assms(4) Cons
      by (intro consistent_at_unlocked [OF assms(1) [unfolded consistent_def, rule_format]]) (simp_all add: census_def outstanding_def h)
  qed
  then show ?thesis using Cons by (simp add: GetNextTask_def)
qed

text \<open>An invocation of a callback changes the user state only.\<close>
lemma consistent_running:
  assumes "consistent sys" "i < length (workers sys)" "workers sys ! i = Running t"
  shows "consistent (sys\<lparr>pool := (pool sys)\<lparr>world := w'\<rparr>,
                  workers := (workers sys)[i := if ret = TR_RERUN then Running t else Returned t ret]\<rparr>)"
  unfolding consistent_def
proof
  fix a
  let ?sys' = "sys\<lparr>pool := (pool sys)\<lparr>world := w'\<rparr>,
                  workers := (workers sys)[i := if ret = TR_RERUN then Running t else Returned t ret]\<rparr>"
  have h: "members a (in_hand ?sys') = members a (in_hand sys)"
    using hand_same [OF assms(2), of "if ret = TR_RERUN then Running t else Returned t ret" a] assms(3)
    by (simp add: in_hand_hand)
  show "consistent_at ?sys' a"
    by (rule consistent_at_same [OF assms(1) [unfolded consistent_def, rule_format]]) (simp_all add: census_def outstanding_def moved_def h)
qed

text \<open>A requeue moves the task from the hand back to the queue.\<close>
lemma consistent_requeue:
  assumes "consistent sys" "i < length (workers sys)" "workers sys ! i = Returned t ret" "m_csTaskList sys = None"
  shows "consistent (sys\<lparr>pool := (pool sys)\<lparr>m_TaskList := m_TaskList (pool sys) @ [t]\<rparr>,
                  workers := (workers sys)[i := Draining]\<rparr>)"
  unfolding consistent_def
proof
  fix a
  let ?sys' = "sys\<lparr>pool := (pool sys)\<lparr>m_TaskList := m_TaskList (pool sys) @ [t]\<rparr>,
                  workers := (workers sys)[i := Draining]\<rparr>"
  have h: "members a (in_hand ?sys') + members a [t] = members a (in_hand sys)"
    using hand_give [OF assms(2), of t Draining a] assms(3) by (simp add: in_hand_hand)
  show "consistent_at ?sys' a"
    using assms(4)
    by (intro consistent_at_unlocked [OF assms(1) [unfolded consistent_def, rule_format]]) (simp_all add: census_def outstanding_def h [symmetric])
qed


lemma consistent_at_idle:
  assumes "consistent_at sys a"
    and "census sys' a = census sys a" "outstanding sys' a = outstanding sys a"
    and "constructed sys' a = constructed sys a"
    and "calls sys' a \<noteq> None \<Longrightarrow> calls sys a \<noteq> None"
    and "\<And>c i. calls sys' a = Some c \<Longrightarrow> c_pc c \<noteq> Enqueuing i"
    and "heap (pool sys') a = heap (pool sys) a"
  shows "consistent_at sys' a"
proof -
  have 1: "census sys' a = mset (map of_nat [0..<constructed sys' a])"
    using assms(1) unfolding consistent_at_def assms(2,4) by blast
  have 2: "calls sys' a \<noteq> None \<longrightarrow> unat (heap (pool sys') a) = outstanding sys' a"
    using assms(1,5) unfolding consistent_at_def assms(3,7) by blast
  show ?thesis
    unfolding consistent_at_def using 1 2 assms(6) by blast
qed

lemma consistent_census_empty:
  assumes "consistent_at sys a" "calls sys a = None"
  shows "members a (m_TaskList (pool sys)) = {#}" "members a (in_hand sys) = {#}"
        "members a (completed sys) = {#}" "members a (flushed sys) = {#}" "members a (purged sys) = {#}"
proof -
  have "census sys a = {#}"
    using assms by (simp add: consistent_at_def constructed_def)
  then show "members a (m_TaskList (pool sys)) = {#}" "members a (in_hand sys) = {#}"
        "members a (completed sys) = {#}" "members a (flushed sys) = {#}" "members a (purged sys) = {#}"
    by (simp_all add: census_def)
qed

text \<open>Finishing a task moves it out of the hand and takes one off its counter.\<close>
lemma consistent_finish:
  assumes "consistent sys" "i < length (workers sys)" "workers sys ! i = Returned t ret"
  shows "consistent (sys\<lparr>pool := (pool sys)\<lparr>heap := release_ref t (heap (pool sys))\<rparr>,
                  workers := (workers sys)[i := Draining],
                  completed := completed sys @ [t]\<rparr>)"
  unfolding consistent_def
proof
  fix a
  let ?sys' = "sys\<lparr>pool := (pool sys)\<lparr>heap := release_ref t (heap (pool sys))\<rparr>,
                  workers := (workers sys)[i := Draining],
                  completed := completed sys @ [t]\<rparr>"
  have ia: "consistent_at sys a" using assms(1) by (simp add: consistent_def)
  have h: "members a (in_hand ?sys') + members a [t] = members a (in_hand sys)"
    using hand_give [OF assms(2), of t Draining a] assms(3) by (simp add: in_hand_hand)
  have cen: "census ?sys' a = census sys a"
    by (simp add: census_def h [symmetric])
  have mov: "moved ?sys' a = moved sys a"
    by (simp add: moved_def h [symmetric])
  have con: "constructed ?sys' a = constructed sys a"
    by (simp add: constructed_def)
  have cnt: "unat (heap (pool ?sys') a) = outstanding ?sys' a" if known: "calls sys a \<noteq> None"
  proof (cases "m_pActionRef t = Some a")
    case True
    have eq: "unat (heap (pool sys) a) = outstanding sys a"
      using ia known by (simp add: consistent_at_def)
    have out: "outstanding sys a = Suc (outstanding ?sys' a)"
      using True by (simp add: outstanding_def h [symmetric])
    then have "heap (pool sys) a \<noteq> 0" using eq by auto
    then have "unat (heap (pool sys) a - 1) = unat (heap (pool sys) a) - 1"
      by (rule unat_minus_one)
    then show ?thesis using True eq out by (simp add: release_ref_def)
  next
    case False
    have "outstanding ?sys' a = outstanding sys a"
      using False by (simp add: outstanding_def h [symmetric])
    moreover have "heap (pool ?sys') a = heap (pool sys) a"
      using False by (simp add: release_ref_def split: option.splits)
    ultimately show ?thesis using ia known by (simp add: consistent_at_def)
  qed
  show "consistent_at ?sys' a"
    unfolding consistent_at_def
  proof (intro conjI impI allI)
    show "census ?sys' a = mset (map of_nat [0..<constructed ?sys' a])"
      using ia unfolding cen con consistent_at_def by blast
    show "unat (heap (pool ?sys') a) = outstanding ?sys' a" if "calls ?sys' a \<noteq> None"
      using that cnt by simp
  next
    fix c j assume "calls ?sys' a = Some c \<and> c_pc c = Enqueuing j"
    then have e: "calls sys a = Some c \<and> c_pc c = Enqueuing j" by simp
    with ia have r: "m_csTaskList sys = Some a \<and> j \<le> unat (c_numtimes c) \<and> moved sys a = {#}"
      unfolding consistent_at_def by blast
    show "m_csTaskList ?sys' = Some a" using r by simp
    show "j \<le> unat (c_numtimes c)" using r by simp
    show "moved ?sys' a = {#}" using r mov by simp
  qed
qed

text \<open>A call that enters has a fresh counter at zero and no task yet.\<close>
lemma consistent_enter:
  assumes "consistent sys" "calls sys a = None" "m_csTaskList sys = None"
  shows "consistent (sys\<lparr>pool := (pool sys)\<lparr>heap := (heap (pool sys))(a := 0)\<rparr>,
                  m_csTaskList := Some a,
                  calls := (calls sys)(a \<mapsto> \<lparr>c_func = func, c_param0 = param0, c_param1 = param1,
                                                  c_numtimes = numtimes, c_block = block, c_pc = Enqueuing 0\<rparr>)\<rparr>)"
  unfolding consistent_def
proof
  fix b
  let ?sys' = "sys\<lparr>pool := (pool sys)\<lparr>heap := (heap (pool sys))(a := 0)\<rparr>,
                  m_csTaskList := Some a,
                  calls := (calls sys)(a \<mapsto> \<lparr>c_func = func, c_param0 = param0, c_param1 = param1,
                                                  c_numtimes = numtimes, c_block = block, c_pc = Enqueuing 0\<rparr>)\<rparr>"
  have ib: "consistent_at sys b" using assms(1) by (simp add: consistent_def)
  show "consistent_at ?sys' b"
  proof (cases "b = a")
    case True
    note e = consistent_census_empty [OF ib [unfolded True] assms(2)]
    show ?thesis
      unfolding True consistent_at_def
      by (simp add: census_def outstanding_def moved_def constructed_def in_hand_hand e [unfolded in_hand_hand])
  next
    case False
    then show ?thesis
      using assms(3)
      by (intro consistent_at_unlocked [OF ib]) (simp_all add: census_def outstanding_def in_hand_hand)
  qed
qed


lemma push_task_eq:
  "push_task f p0 p1 ref i s =
     s\<lparr>m_TaskList := m_TaskList s @ [new_task f p0 p1 ref i],
       heap := (case ref of None \<Rightarrow> heap s | Some a \<Rightarrow> (heap s)(a := heap s a + 1))\<rparr>"
  by (simp add: push_task_def STaskInfo_ctor_def new_task_def)

lemma ref_new_task [simp]: "m_pActionRef (new_task f p0 p1 ref i) = ref"
  by (simp add: new_task_def)

lemma number_of_new_task [simp]: "m_TaskNumber (new_task f p0 p1 ref i) = of_nat i"
  by (simp add: new_task_def)

lemma members_new_task:
  "members b [new_task f p0 p1 ref i] = (if ref = Some b then {#of_nat i#} else {#})"
  by (simp add: new_task_def)

lemma size_upto_mset: "size (mset (map f [0..<n])) = n"
  by simp

text \<open>One iteration of the loop adds one member task and one to the counter.\<close>
lemma consistent_push:
  assumes "consistent sys" "calls sys a = Some c" "c_pc c = Enqueuing i" "i < unat (c_numtimes c)"
  shows "consistent (sys\<lparr>pool := push_task (c_func c) (c_param0 c) (c_param1 c)
                                          (if c_block c then Some a else None) i (pool sys),
                  calls := (calls sys)(a \<mapsto> c\<lparr>c_pc := Enqueuing (Suc i)\<rparr>)\<rparr>)"
  unfolding consistent_def
proof
  fix b
  let ?ref = "if c_block c then Some a else None"
  let ?sys' = "sys\<lparr>pool := push_task (c_func c) (c_param0 c) (c_param1 c) ?ref i (pool sys),
                  calls := (calls sys)(a \<mapsto> c\<lparr>c_pc := Enqueuing (Suc i)\<rparr>)\<rparr>"
  have ib: "consistent_at sys b" using assms(1) by (simp add: consistent_def)
  show "consistent_at ?sys' b"
  proof (cases "b = a")
    case False
    then show ?thesis
      by (intro consistent_at_same [OF ib])
         (auto simp: census_def outstanding_def moved_def in_hand_hand push_task_eq members_new_task)
  next
    case True
    have ia: "consistent_at sys a" using ib True by simp
    have lk: "m_csTaskList sys = Some a" and mv: "moved sys a = {#}"
      using ia assms(2,3) unfolding consistent_at_def by blast+
    have cen: "census sys a = mset (map of_nat [0..<constructed sys a])"
      using ia unfolding consistent_at_def by blast
    have cnt: "unat (heap (pool sys) a) = outstanding sys a"
      using ia assms(2) unfolding consistent_at_def by simp
    have mv': "members a (in_hand sys) = {#}" "members a (completed sys) = {#}"
              "members a (flushed sys) = {#}" "members a (purged sys) = {#}"
      using mv by (simp_all add: moved_def)
    show ?thesis
    proof (cases "c_block c")
      case False
      have "constructed sys a = 0" using assms(2) False by (simp add: constructed_def)
      then have q: "members a (m_TaskList (pool sys)) = {#}"
        using cen by (simp add: census_def)
      show ?thesis
        unfolding True consistent_at_def
        using False assms(4) cnt lk q mv'
        by (simp add: census_def outstanding_def moved_def constructed_def in_hand_hand
                      push_task_eq members_new_task)
    next
      case block: True
      have con: "constructed sys a = i"
        using assms(2,3) block by (simp add: constructed_def)
      have q: "members a (m_TaskList (pool sys)) = mset (map of_nat [0..<i])"
        using cen mv' by (simp add: census_def con)
      have "size (members a (m_TaskList (pool sys))) = i"
        unfolding q by simp
      then have out: "outstanding sys a = i"
        using mv' by (simp add: outstanding_def)
      have "unat (heap (pool sys) a) + unat (1 :: 64 word) < 2 ^ 64"
      proof -
        have "unat (c_numtimes c) < 2 ^ 64" using unsigned_less [of "c_numtimes c"] by simp
        then show ?thesis using cnt out assms(4) by simp
      qed
      then have inc: "unat (heap (pool sys) a + 1) = Suc i"
        using unat_add_lem [of "heap (pool sys) a" 1] cnt out by simp
      show ?thesis
        unfolding True consistent_at_def
        using block assms(4) lk q mv' inc
        by (simp add: census_def outstanding_def moved_def constructed_def in_hand_hand
                      push_task_eq members_new_task)
    qed
  qed
qed

text \<open>Leaving the critical section: the loop has run \<open>numtimes\<close> times.\<close>
lemma consistent_leave:
  assumes "consistent sys" "calls sys a = Some c" "c_pc c = Enqueuing i" "\<not> i < unat (c_numtimes c)"
  shows "consistent (sys\<lparr>pool := signal_run (pool sys),
                  m_csTaskList := None,
                  calls := (calls sys)(a \<mapsto> c\<lparr>c_pc := Waiting\<rparr>)\<rparr>)"
  unfolding consistent_def
proof
  fix b
  let ?sys' = "sys\<lparr>pool := signal_run (pool sys), m_csTaskList := None,
                  calls := (calls sys)(a \<mapsto> c\<lparr>c_pc := Waiting\<rparr>)\<rparr>"
  have ib: "consistent_at sys b" using assms(1) by (simp add: consistent_def)
  have ia: "consistent_at sys a" using assms(1) by (simp add: consistent_def)
  have lk: "m_csTaskList sys = Some a" and le: "i \<le> unat (c_numtimes c)"
    using ia assms(2,3) unfolding consistent_at_def by blast+
  have i: "i = unat (c_numtimes c)" using le assms(4) by simp
  have noenq: "c' = c \<and> b = a" if "calls sys b = Some c'" "c_pc c' = Enqueuing j" for c' j
  proof -
    have "m_csTaskList sys = Some b" using ib that unfolding consistent_at_def by blast
    then have "b = a" using lk by simp
    then show ?thesis using that assms(2) by simp
  qed
  show "consistent_at ?sys' b"
  proof (rule consistent_at_idle [OF ib])
    show "census ?sys' b = census sys b"
      by (simp add: census_def in_hand_hand signal_run_list)
    show "outstanding ?sys' b = outstanding sys b"
      by (simp add: outstanding_def in_hand_hand signal_run_list)
    show "constructed ?sys' b = constructed sys b"
      using assms(2,3) i by (simp add: constructed_def)
    show "calls sys b \<noteq> None" if "calls ?sys' b \<noteq> None"
      using that assms(2) by (cases "b = a") simp_all
    show "c_pc c' \<noteq> Enqueuing j" if "calls ?sys' b = Some c'" for c' j
      using that noenq [of c' j] by (cases "b = a") auto
    show "heap (pool ?sys') b = heap (pool sys) b"
      by (simp add: signal_run_heap)
  qed
qed

text \<open>The return of a call changes nothing in the pool.\<close>
lemma consistent_return:
  assumes "consistent sys" "calls sys a = Some c" "c_pc c = Waiting"
  shows "consistent (sys\<lparr>calls := (calls sys)(a \<mapsto> c\<lparr>c_pc := Finished\<rparr>)\<rparr>)"
  unfolding consistent_def
proof
  fix b
  let ?sys' = "sys\<lparr>calls := (calls sys)(a \<mapsto> c\<lparr>c_pc := Finished\<rparr>)\<rparr>"
  have ib: "consistent_at sys b" using assms(1) by (simp add: consistent_def)
  show "consistent_at ?sys' b"
  proof (cases "b = a")
    case False
    then show ?thesis
      by (intro consistent_at_same [OF ib]) (simp_all add: census_def outstanding_def moved_def in_hand_hand)
  next
    case True
    show ?thesis
      unfolding True
    proof (rule consistent_at_idle [OF ib [unfolded True]])
      show "constructed ?sys' a = constructed sys a"
        using assms(2,3) by (simp add: constructed_def)
    qed (auto simp: census_def outstanding_def in_hand_hand assms(2))
  qed
qed

text \<open>A purge moves the queued tasks to the purged ones.\<close>
lemma consistent_purge:
  assumes "consistent sys" "m_csTaskList sys = None"
  shows "consistent (sys\<lparr>pool := PurgeAllPendingTasks (pool sys), purged := purged sys @ m_TaskList (pool sys)\<rparr>)"
  unfolding consistent_def
proof
  fix b
  have ib: "consistent_at sys b" using assms(1) by (simp add: consistent_def)
  show "consistent_at (sys\<lparr>pool := PurgeAllPendingTasks (pool sys), purged := purged sys @ m_TaskList (pool sys)\<rparr>) b"
    using assms(2)
    by (intro consistent_at_unlocked [OF ib])
       (simp_all add: census_def outstanding_def in_hand_hand PurgeAllPendingTasks_def)
qed


lemma Flush_loop_heap:
  "fst (Flush_loop ts (h, w)) a = h a - of_nat (size (members a ts))"
proof (induction ts arbitrary: h w)
  case Nil
  then show ?case by simp
next
  case (Cons t ts)
  show ?case
    by (simp add: Cons.IH release_ref_def split: option.splits)
qed

lemma unat_sub_of_nat:
  fixes x :: "64 word"
  assumes "k \<le> unat x"
  shows "unat (x - of_nat k) = unat x - k"
proof -
  have "unat x < 2 ^ 64" using unsigned_less [of x] by simp
  then have k: "k < 2 ^ 64" using assms by simp
  then have uk: "unat (of_nat k :: 64 word) = k"
    by (simp add: unat_of_nat)
  then have "(of_nat k :: 64 word) \<le> x"
    using assms by (simp add: word_le_nat_alt)
  then have "unat (x - of_nat k) = unat x - unat (of_nat k :: 64 word)"
    by (rule unat_sub)
  then show ?thesis using uk by simp
qed

text \<open>\<^verbatim>\<open>Flush\<close> takes one off the counter of every queued task and retires the task.\<close>
lemma consistent_flush:
  assumes "consistent sys" "m_csTaskList sys = None"
  shows "consistent (sys\<lparr>pool := Flush (pool sys), flushed := flushed sys @ m_TaskList (pool sys)\<rparr>)"
  unfolding consistent_def
proof
  fix b
  let ?sys' = "sys\<lparr>pool := Flush (pool sys), flushed := flushed sys @ m_TaskList (pool sys)\<rparr>"
  have ib: "consistent_at sys b" using assms(1) by (simp add: consistent_def)
  have q: "m_TaskList (Flush (pool sys)) = []"
    by (simp add: Flush_def case_prod_beta)
  have hp: "heap (Flush (pool sys)) b = heap (pool sys) b - of_nat (size (members b (m_TaskList (pool sys))))"
    using Flush_loop_heap [of "m_TaskList (pool sys)" "heap (pool sys)" "world (pool sys)" b]
    by (simp add: Flush_def case_prod_beta)
  have cen: "census ?sys' b = census sys b"
    by (simp add: census_def in_hand_hand q)
  have con: "constructed ?sys' b = constructed sys b"
    by (simp add: constructed_def)
  have out: "outstanding sys b = outstanding ?sys' b + size (members b (m_TaskList (pool sys)))"
    by (simp add: outstanding_def in_hand_hand q)
  show "consistent_at ?sys' b"
    unfolding consistent_at_def
  proof (intro conjI impI allI)
    show "census ?sys' b = mset (map of_nat [0..<constructed ?sys' b])"
      using ib unfolding cen con consistent_at_def by blast
    show "unat (heap (pool ?sys') b) = outstanding ?sys' b" if "calls ?sys' b \<noteq> None"
    proof -
      have eq: "unat (heap (pool sys) b) = outstanding sys b"
        using ib that unfolding consistent_at_def by simp
      then have "size (members b (m_TaskList (pool sys))) \<le> unat (heap (pool sys) b)"
        using out by simp
      from unat_sub_of_nat [OF this] show ?thesis
        using eq out by (simp add: hp)
    qed
  next
    fix c j assume "calls ?sys' b = Some c \<and> c_pc c = Enqueuing j"
    then have "calls sys b = Some c \<and> c_pc c = Enqueuing j" by simp
    with ib have "m_csTaskList sys = Some b" unfolding consistent_at_def by blast
    with assms(2) have False by simp
    then show "m_csTaskList ?sys' = Some b" "j \<le> unat (c_numtimes c)" "moved ?sys' b = {#}"
      by blast+
  qed
qed

lemma consistent_worker_step:
  assumes "consistent sys" "worker_step i sys = Some sys'"
  shows "consistent sys'"
proof -
  from assms(2) have i: "i < length (workers sys)"
    by (simp add: worker_step_def split: if_splits)
  show ?thesis
  proof (cases "workers sys ! i")
    case Parked
    then show ?thesis
      using assms i consistent_parked [OF assms(1) i Parked]
      by (auto simp: worker_step_def split: option.splits)
  next
    case Draining
    then show ?thesis
      using assms i consistent_draining [OF assms(1) i Draining]
      by (auto simp: worker_step_def split: if_splits prod.splits option.splits)
  next
    case (Running t)
    then show ?thesis
      using assms i consistent_running [OF assms(1) i Running]
      by (auto simp: worker_step_def split: prod.splits)
  next
    case (Returned t ret)
    show ?thesis
    proof (cases "ret = TR_REQUEUE")
      case True
      then show ?thesis
        using assms i Returned consistent_requeue [OF assms(1) i Returned]
        by (auto simp: worker_step_def dispose_def split: if_splits)
    next
      case False
      then show ?thesis
        using assms i Returned consistent_finish [OF assms(1) i Returned]
        by (auto simp: worker_step_def dispose_def split: if_splits)
    qed
  next
    case Terminated
    then show ?thesis using assms i by (simp add: worker_step_def)
  qed
qed

lemma consistent_flush_step: "consistent sys \<Longrightarrow> flush_step sys = Some sys' \<Longrightarrow> consistent sys'"
  using consistent_flush [of sys] by (auto simp: flush_step_def split: if_splits)

lemma consistent_step:
  assumes "consistent sys" "step act sys = Some sys'"
  shows "consistent sys'"
proof (cases act)
  case (Worker i)
  then show ?thesis using assms consistent_worker_step by simp
next
  case (RunTask_enter a func p0 p1 n block)
  then show ?thesis
    using assms consistent_enter [of sys a]
    by (auto simp: enter_step_def split: if_splits)
next
  case (RunTask_step a)
  then have cs: "call_step a sys = Some sys'" using assms by simp
  then obtain c where c: "calls sys a = Some c"
    by (auto simp: call_step_def split: option.splits)
  show ?thesis
  proof (cases "c_pc c")
    case (Enqueuing i)
    then show ?thesis
      using cs c consistent_push [OF assms(1) c Enqueuing] consistent_leave [OF assms(1) c Enqueuing]
      by (auto simp: call_step_def split: if_splits)
  next
    case Waiting
    then show ?thesis
      using cs c consistent_return [OF assms(1) c Waiting]
      by (auto simp: call_step_def split: if_splits)
  next
    case Finished
    then show ?thesis using cs c by (simp add: call_step_def)
  qed
next
  case Call_PurgeAllPendingTasks
  then show ?thesis
    using assms consistent_purge [of sys] by (auto simp: purge_step_def split: if_splits)
next
  case Call_Flush
  then show ?thesis using assms consistent_flush_step by simp
next
  case Call_WaitForAllTasks
  then show ?thesis
    using assms consistent_flush_step by (auto simp: wait_step_def split: if_splits)
qed

lemma consistent_run: "consistent sys \<Longrightarrow> run acts sys = Some sys' \<Longrightarrow> consistent sys'"
proof (induction acts arbitrary: sys)
  case Nil
  then show ?case by simp
next
  case (Cons act acts)
  then obtain mid where m: "step act sys = Some mid" "run acts mid = Some sys'"
    by (auto simp: bind_eq_Some_conv)
  from Cons.IH [OF consistent_step [OF Cons.prems(1) m(1)] m(2)] show ?case .
qed

lemma consistent_boot: "consistent (boot tc h w)"
  by (simp add: consistent_def consistent_at_def boot_def census_def constructed_def in_hand_hand hand_def
                Create_count_def Initialize_def)

subsection \<open>Frame properties of the steps\<close>

lemma wait_signal_threads: "wait_signal s = Some (q, s') \<Longrightarrow> m_hThreads s' = m_hThreads s"
  by (simp add: wait_signal_frame)

lemma Flush_threads: "m_hThreads (Flush s) = m_hThreads s"
  by (simp add: Flush_def case_prod_beta)

lemma step_threads:
  assumes "step act sys = Some sys'"
  shows "m_hThreads (pool sys') = m_hThreads (pool sys)"
proof (cases act)
  case (Worker i)
  then have ws: "worker_step i sys = Some sys'" using assms by simp
  then have i: "i < length (workers sys)" by (simp add: worker_step_def split: if_splits)
  show ?thesis
  proof (cases "workers sys ! i")
    case Parked
    then show ?thesis using ws i
      by (auto simp: worker_step_def wait_signal_frame split: option.splits)
  next
    case Draining
    then show ?thesis using ws i
      by (auto simp: worker_step_def GetNextTask_def split: if_splits list.splits)
  next
    case (Running t)
    then show ?thesis using ws i
      by (auto simp: worker_step_def split: prod.splits)
  next
    case (Returned t ret)
    then show ?thesis using ws i
      by (auto simp: worker_step_def dispose_def split: if_splits)
  next
    case Terminated
    then show ?thesis using ws i by (simp add: worker_step_def)
  qed
next
  case (RunTask_enter a func p0 p1 n block)
  then show ?thesis using assms by (auto simp: enter_step_def split: if_splits)
next
  case (RunTask_step a)
  then show ?thesis using assms
    by (auto simp: call_step_def push_task_eq signal_run_threads
             split: option.splits call_pc.splits if_splits)
next
  case Call_PurgeAllPendingTasks
  then show ?thesis using assms
    by (auto simp: purge_step_def PurgeAllPendingTasks_def split: if_splits)
next
  case Call_Flush
  then show ?thesis using assms
    by (auto simp: flush_step_def Flush_threads split: if_splits)
next
  case Call_WaitForAllTasks
  then show ?thesis using assms
    by (auto simp: wait_step_def flush_step_def Flush_threads split: if_splits)
qed

lemma run_threads: "run acts sys = Some sys' \<Longrightarrow> m_hThreads (pool sys') = m_hThreads (pool sys)"
proof (induction acts arbitrary: sys)
  case Nil
  then show ?case by simp
next
  case (Cons act acts)
  then obtain mid where m: "step act sys = Some mid" "run acts mid = Some sys'"
    by (auto simp: bind_eq_Some_conv)
  show ?case using Cons.IH [OF m(2)] step_threads [OF m(1)] by simp
qed

lemma boot_threads: "m_hThreads (pool (boot tc h w)) = tc"
  by (simp add: boot_def Create_count_def Initialize_def)

lemma reachable_consistent: "run acts (boot tc h w) = Some sys \<Longrightarrow> consistent sys"
  using consistent_run [OF consistent_boot] .

lemma reachable_threads: "run acts (boot tc h w) = Some sys \<Longrightarrow> m_hThreads (pool sys) = tc"
  using run_threads [of acts "boot tc h w" sys] by (simp add: boot_threads)

subsection \<open>Submission\<close>

lemma spin_zero: "heap s a = 0 \<Longrightarrow> spin env a s = Some s"
  by (subst spin.simps) simp

lemma RunTask_submit_zero:
  "RunTask_submit a f p0 p1 0 block s = signal_run (s\<lparr>heap := (heap s)(a := 0)\<rparr>)"
  by (simp add: RunTask_submit_def enqueue_loop_def)

lemma fold_push_frame:
  "world (fold (push_task f p0 p1 ref) is s) = world s
   \<and> m_hThreads (fold (push_task f p0 p1 ref) is s) = m_hThreads s"
  by (induction "is" arbitrary: s) (simp_all add: push_task_eq)

lemma RunTask_submit_frame:
  "world (RunTask_submit a f p0 p1 n block s) = world s
   \<and> m_hThreads (RunTask_submit a f p0 p1 n block s) = m_hThreads s"
  by (simp add: RunTask_submit_def enqueue_loop_def signal_run_world signal_run_threads fold_push_frame)

text \<open>The wait ends at the first test that finds the counter at zero.\<close>

lemma spin_reached:
  "heap ((env ^^ k) s) a = 0 \<Longrightarrow> (\<forall>j<k. heap ((env ^^ j) s) a \<noteq> 0) \<Longrightarrow>
   spin env a s = Some ((env ^^ k) s)"
proof (induction k arbitrary: s)
  case 0
  then show ?case by (subst spin.simps) simp
next
  case (Suc k)
  have first: "heap s a \<noteq> 0" using Suc.prems(2) [rule_format, of 0] by simp
  have z: "heap ((env ^^ k) (env s)) a = 0"
    using Suc.prems(1) by (simp add: funpow_swap1)
  have nz: "\<forall>j<k. heap ((env ^^ j) (env s)) a \<noteq> 0"
  proof (intro allI impI)
    fix j assume "j < k"
    then have "Suc j < Suc k" by simp
    from Suc.prems(2) [rule_format, OF this]
    show "heap ((env ^^ j) (env s)) a \<noteq> 0" by (simp add: funpow_swap1)
  qed
  have "spin env a s = spin env a (env s)"
    using first by (subst spin.simps) simp
  then show ?case using Suc.IH [OF z nz] by (simp add: funpow_swap1)
qed

lemma spin_Some_reached:
  assumes "spin env a s = Some s'"
  shows "\<exists>k. s' = (env ^^ k) s \<and> heap ((env ^^ k) s) a = 0"
proof (rule spin.raw_induct [where P = "\<lambda>env a s s'. \<exists>k. s' = (env ^^ k) s \<and> heap ((env ^^ k) s) a = 0",
         OF _ assms])
  fix loop env a s s'
  assume IH: "\<And>env a s s'. loop env a s = Some s' \<Longrightarrow> \<exists>k. s' = (env ^^ k) s \<and> heap ((env ^^ k) s) a = 0"
     and body: "(if heap s a \<noteq> 0 then loop env a (env s) else Some s) = Some s'"
  show "\<exists>k. s' = (env ^^ k) s \<and> heap ((env ^^ k) s) a = 0"
  proof (cases "heap s a = 0")
    case True
    then have "s' = (env ^^ 0) s \<and> heap ((env ^^ 0) s) a = 0" using body by simp
    then show ?thesis by blast
  next
    case False
    then have "loop env a (env s) = Some s'" using body by simp
    from IH [OF this] obtain k where "s' = (env ^^ k) (env s) \<and> heap ((env ^^ k) (env s)) a = 0"
      by blast
    then have "s' = (env ^^ Suc k) s \<and> heap ((env ^^ Suc k) s) a = 0"
      by (simp add: funpow_swap1)
    then show ?thesis by blast
  qed
qed

lemma spin_never:
  assumes "\<forall>k. heap ((env ^^ k) s) a \<noteq> 0"
  shows "spin env a s = None"
proof (cases "spin env a s")
  case None
  then show ?thesis .
next
  case (Some s')
  from spin_Some_reached [OF this] assms show ?thesis by blast
qed

lemma purge_again: "(PurgeAllPendingTasks ^^ k) s = (if k = 0 then s else PurgeAllPendingTasks s)"
  by (induction k) (simp_all add: PurgeAllPendingTasks_def)

text \<open>
  Claim C10, as stated, fails for a call that blocks: it need not return at all. On a
  pool with one worker, \<^verbatim>\<open>RunTask(f, (), (), 1, true)\<close> whose task is purged by another
  thread during the wait, before the worker has taken it, never returns: its counter
  stays at 1.
\<close>

theorem RunTask_counterexample:
  "RunTask PurgeAllPendingTasks 0 done_at_once () () 1 True (Create_count 1 no_counters 0) = None"
proof -
  let ?s1 = "RunTask_submit 0 done_at_once () () 1 True (Create_count 1 no_counters 0)"
  have h: "heap ?s1 0 = 1"
    by (simp add: RunTask_submit_def enqueue_loop_def push_task_eq signal_run_heap)
  have "\<forall>k. heap ((PurgeAllPendingTasks ^^ k) ?s1) 0 \<noteq> 0"
    using h by (simp add: purge_again PurgeAllPendingTasks_def)
  then have "spin PurgeAllPendingTasks 0 ?s1 = None" by (rule spin_never)
  moreover have "m_hThreads ?s1 \<noteq> 0"
    by (simp add: RunTask_submit_frame Create_count_def Initialize_def)
  ultimately show ?thesis by (simp add: RunTask_def Let_def)
qed

text \<open>
  Claim C10, amended. \<^verbatim>\<open>RunTask\<close> never returns \<^verbatim>\<open>false\<close>, whatever the callback, the
  parameters, the count and the flag: a call that returns, returns \<^verbatim>\<open>true\<close>. A call that
  does not block, and any call on a pool without workers, returns at once, with the
  pool right after the submission. With \<open>numtimes = 0\<close> the call returns at once, also
  when it is asked to block, and the queue is the queue it found. A blocking call on a
  pool with workers returns at the first test that finds its counter at zero (after
  \<open>k\<close> rounds of what the other threads do during a \<^verbatim>\<open>Sleep\<close>), and does not return when
  no test ever does.
\<close>

theorem RunTask_never_returns_false:
  "RunTask env a f p0 p1 n block s \<noteq> Some (False, s')
   \<and> RunTask env a f p0 p1 n False s = Some (True, RunTask_submit a f p0 p1 n False s)
   \<and> (m_hThreads s = 0 \<longrightarrow>
        RunTask env a f p0 p1 n block s = Some (True, RunTask_submit a f p0 p1 n block s))
   \<and> RunTask env a f p0 p1 0 block s = Some (True, RunTask_submit a f p0 p1 0 block s)
   \<and> m_TaskList (RunTask_submit a f p0 p1 0 block s) = m_TaskList s
   \<and> (m_hThreads s \<noteq> 0 \<and> heap ((env ^^ k) (RunTask_submit a f p0 p1 n True s)) a = 0
        \<and> (\<forall>j<k. heap ((env ^^ j) (RunTask_submit a f p0 p1 n True s)) a \<noteq> 0) \<longrightarrow>
      RunTask env a f p0 p1 n True s = Some (True, (env ^^ k) (RunTask_submit a f p0 p1 n True s)))
   \<and> (m_hThreads s \<noteq> 0 \<and> (\<forall>k. heap ((env ^^ k) (RunTask_submit a f p0 p1 n True s)) a \<noteq> 0) \<longrightarrow>
      RunTask env a f p0 p1 n True s = None)"
proof (intro conjI impI)
  show "RunTask env a f p0 p1 n block s \<noteq> Some (False, s')"
    by (auto simp: RunTask_def Let_def)
  show "RunTask env a f p0 p1 n False s = Some (True, RunTask_submit a f p0 p1 n False s)"
    by (simp add: RunTask_def)
  show "RunTask env a f p0 p1 n block s = Some (True, RunTask_submit a f p0 p1 n block s)"
    if "m_hThreads s = 0"
    using that by (simp add: RunTask_def Let_def RunTask_submit_frame)
  have "heap (RunTask_submit a f p0 p1 0 block s) a = 0"
    by (simp add: RunTask_submit_zero signal_run_heap)
  then have "spin env a (RunTask_submit a f p0 p1 0 block s) = Some (RunTask_submit a f p0 p1 0 block s)"
    by (rule spin_zero)
  then show "RunTask env a f p0 p1 0 block s = Some (True, RunTask_submit a f p0 p1 0 block s)"
    by (cases block) (simp_all add: RunTask_def Let_def)
  show "m_TaskList (RunTask_submit a f p0 p1 0 block s) = m_TaskList s"
    by (simp add: RunTask_submit_list)
  show "RunTask env a f p0 p1 n True s = Some (True, (env ^^ k) (RunTask_submit a f p0 p1 n True s))"
    if "m_hThreads s \<noteq> 0 \<and> heap ((env ^^ k) (RunTask_submit a f p0 p1 n True s)) a = 0
        \<and> (\<forall>j<k. heap ((env ^^ j) (RunTask_submit a f p0 p1 n True s)) a \<noteq> 0)"
    using that spin_reached [where env = env and k = k and s = "RunTask_submit a f p0 p1 n True s" and a = a]
    by (simp add: RunTask_def Let_def RunTask_submit_frame)
  show "RunTask env a f p0 p1 n True s = None"
    if "m_hThreads s \<noteq> 0 \<and> (\<forall>k. heap ((env ^^ k) (RunTask_submit a f p0 p1 n True s)) a \<noteq> 0)"
    using that spin_never [where env = env and s = "RunTask_submit a f p0 p1 n True s" and a = a]
    by (simp add: RunTask_def Let_def RunTask_submit_frame)
qed

lemmas submit_defs = RunTask_submit_def enqueue_loop_def Create_count_def Initialize_def
  push_task_eq signal_run_def ReleaseSemaphore_def no_counters_def new_task_def upt_rec

theorem RunTask_witness:
  "RunTask drained 0 done_at_once () () 2 True (Create_count 1 no_counters 0) =
     Some (True, drained (RunTask_submit 0 done_at_once () () 2 True (Create_count 1 no_counters 0)))
   \<and> world (drained (RunTask_submit 0 done_at_once () () 2 True (Create_count 1 no_counters 0))) = 2
   \<and> RunTask id 0 done_at_once () () 2 True (Create_count 1 no_counters 0) = None
   \<and> RunTask id 0 done_at_once () () 2 True (Create_count 0 no_counters 0) =
       Some (True, RunTask_submit 0 done_at_once () () 2 True (Create_count 0 no_counters 0))
   \<and> length (m_TaskList (RunTask_submit 0 done_at_once () () 2 True (Create_count 0 no_counters 0))) = 2"
proof -
  let ?one = "Create_count 1 no_counters 0 :: (unit, nat) CThreadPool"
  let ?none = "Create_count 0 no_counters 0 :: (unit, nat) CThreadPool"
  let ?sub = "RunTask_submit 0 done_at_once () () 2 True ?one"
  have t: "m_hThreads ?one \<noteq> 0" "m_hThreads ?none = 0"
    by (simp_all add: Create_count_def Initialize_def)
  have h0: "heap ?sub 0 = 2" by (simp add: submit_defs)
  have h1: "heap (drained ?sub) 0 = 0"
    by (simp add: submit_defs drained_def drain.simps run_one_def rerun_loop.simps GetNextTask_def
                  invoke_def done_at_once_def dispose_def release_ref_def)
  have w1: "world (drained ?sub) = 2"
    by (simp add: submit_defs drained_def drain.simps run_one_def rerun_loop.simps GetNextTask_def
                  invoke_def done_at_once_def dispose_def release_ref_def)
  have "m_hThreads ?one \<noteq> 0 \<and> heap ((drained ^^ 1) ?sub) 0 = 0 \<and> (\<forall>j<1. heap ((drained ^^ j) ?sub) 0 \<noteq> 0)"
    using t h0 h1 by simp
  then have 1: "RunTask drained 0 done_at_once () () 2 True ?one = Some (True, drained ?sub)"
    using RunTask_never_returns_false [where env = drained and a = 0 and f = done_at_once and ?p0.0 = "()"
              and ?p1.0 = "()" and n = 2 and s = ?one and k = 1,
            THEN conjunct2, THEN conjunct2, THEN conjunct2, THEN conjunct2, THEN conjunct2, THEN conjunct1]
    by simp
  have "m_hThreads ?one \<noteq> 0 \<and> (\<forall>k. heap ((id ^^ k) ?sub) 0 \<noteq> 0)"
    using t h0 by simp
  then have 2: "RunTask id 0 done_at_once () () 2 True ?one = None"
    using RunTask_never_returns_false [where env = id and a = 0 and f = done_at_once and ?p0.0 = "()"
              and ?p1.0 = "()" and n = 2 and s = ?one,
            THEN conjunct2, THEN conjunct2, THEN conjunct2, THEN conjunct2, THEN conjunct2, THEN conjunct2]
    by blast
  have 3: "RunTask id 0 done_at_once () () 2 True ?none =
       Some (True, RunTask_submit 0 done_at_once () () 2 True ?none)"
    using RunTask_never_returns_false [where env = id and a = 0 and f = done_at_once and ?p0.0 = "()"
              and ?p1.0 = "()" and n = 2 and s = ?none and block = True,
            THEN conjunct2, THEN conjunct2, THEN conjunct1] t
    by simp
  have 4: "length (m_TaskList (RunTask_submit 0 done_at_once () () 2 True ?none)) = 2"
    by (simp add: RunTask_submit_list Create_count_def Initialize_def)
  show ?thesis using 1 2 3 4 w1 by simp
qed

subsection \<open>Blocking submission\<close>

text \<open>The definitions that evaluate a schedule on a concrete system.\<close>

lemmas eval_defs = after_schedule_def enqueue_two_def boot_def Create_count_def
  Initialize_def enter_step_def call_step_def push_task_eq signal_run_def ReleaseSemaphore_def
  new_task_def no_counters_def worker_step_def wait_signal_def GetNextTask_def invoke_def
  dispose_def release_ref_def must_wait_def done_at_once_def requeue_twice_def
  rerun_four_times_def purge_step_def flush_step_def wait_step_def PurgeAllPendingTasks_def Flush_def

text \<open>
  Claim C1 against the code. On a pool with one worker a thread calls
  \<^verbatim>\<open>RunTask(f, (), (), 2, true)\<close>, where \<open>f\<close> asks to be requeued on its first two
  invocations. The call has left the critical section and waits: its return is not
  enabled, both tasks are queued, the worker has not yet woken up. Another thread now
  calls \<^verbatim>\<open>Flush\<close>, which invokes each task once (both invocations return \<^verbatim>\<open>TR_REQUEUE\<close>),
  brings the counter to 0 and empties the queue. The call then returns, although no
  task of it has been finished: no worker ever got a disposition other than
  \<^verbatim>\<open>TR_REQUEUE\<close> from one of them.
\<close>

theorem Flush_releases_blocking_RunTask:
  "run (enqueue_two requeue_twice @ [Call_Flush, RunTask_step 0]) (boot 1 no_counters 0) \<noteq> None
   \<and> map_option c_pc (calls (after_schedule 1 (enqueue_two requeue_twice)) 0) = Some Waiting
   \<and> step (RunTask_step 0) (after_schedule 1 (enqueue_two requeue_twice)) = None
   \<and> m_TaskList (pool (after_schedule 1 (enqueue_two requeue_twice))) =
       [new_task requeue_twice () () (Some 0) 0, new_task requeue_twice () () (Some 0) 1]
   \<and> workers (after_schedule 1 (enqueue_two requeue_twice)) = [Parked]
   \<and> invoke (new_task requeue_twice () () (Some 0) 0) 0 = (TR_REQUEUE, 1)
   \<and> invoke (new_task requeue_twice () () (Some 0) 1) 1 = (TR_REQUEUE, 2)
   \<and> world (pool (after_schedule 1 (enqueue_two requeue_twice @ [Call_Flush]))) = 2
   \<and> heap (pool (after_schedule 1 (enqueue_two requeue_twice @ [Call_Flush]))) 0 = 0
   \<and> m_TaskList (pool (after_schedule 1 (enqueue_two requeue_twice @ [Call_Flush]))) = []
   \<and> workers (after_schedule 1 (enqueue_two requeue_twice @ [Call_Flush])) = [Parked]
   \<and> completed (after_schedule 1 (enqueue_two requeue_twice @ [Call_Flush])) = []
   \<and> map_option c_pc
        (calls (after_schedule 1 (enqueue_two requeue_twice @ [Call_Flush, RunTask_step 0])) 0) =
       Some Finished
   \<and> completed (after_schedule 1 (enqueue_two requeue_twice @ [Call_Flush, RunTask_step 0])) = []"
  by (simp add: eval_defs)

subsection \<open>The counter of a blocking call\<close>

lemmas access_defs = after_accesses_def both_returned_def finish_together_def finish_in_turn_def
  start_def load_step_def store_step_def decrementing_def

lemma replicate_two: "replicate 2 x = [x, x]"
  by (simp add: numeral_2_eq_2)

text \<open>
  A read followed at once by its write is the decrement of the system, so that every
  run of the system is a run of the machine.
\<close>

lemma load_store_is_step:
  assumes "load_step i m = Some m1"
  shows "store_step i m1 = map_option (\<lambda>sys'. m\<lparr>shared := sys'\<rparr>) (step (Worker i) (shared m))"
proof -
  from assms obtain task a where a: "decrementing i (shared m) = Some (task, a)"
    and f: "fetched m i = None"
    and m1: "m1 = m\<lparr>fetched := (fetched m)(i \<mapsto> heap (pool (shared m)) a)\<rparr>"
    by (auto simp: load_step_def split: option.splits if_splits)
  from a have i: "i < length (workers (shared m))"
    by (simp add: decrementing_def split: if_splits)
  from a i obtain ret where w: "workers (shared m) ! i = Returned task ret"
    and r: "ret \<noteq> TR_REQUEUE" and ref: "m_pActionRef task = Some a"
    by (cases "workers (shared m) ! i") (auto simp: decrementing_def split: if_splits)
  have "(fetched m)(i := None) = fetched m" using f by auto
  then show ?thesis
    using a i w r ref f
    by (simp add: store_step_def m1 worker_step_def dispose_def release_ref_def)
qed

lemma execute_append: "execute (xs @ ys) m = Option.bind (execute xs m) (execute ys)"
proof (induction xs arbitrary: m)
  case Nil
  show ?case by simp
next
  case (Cons x xs)
  show ?case by (cases "access_step x m") (simp_all add: Cons.IH)
qed

lemma step_is_accesses:
  assumes "step act sys = Some sys'"
  shows "\<exists>xs. execute xs \<lparr>shared = sys, fetched = (\<lambda>i. None)\<rparr> = Some \<lparr>shared = sys', fetched = (\<lambda>i. None)\<rparr>"
proof (cases "needs_access act sys")
  case False
  then have "execute [Plain act] \<lparr>shared = sys, fetched = (\<lambda>i. None)\<rparr> =
               Some \<lparr>shared = sys', fetched = (\<lambda>i. None)\<rparr>"
    using assms by simp
  then show ?thesis by blast
next
  case True
  then obtain i where act: "act = Worker i"
    by (cases act) simp_all
  let ?m = "\<lparr>shared = sys, fetched = (\<lambda>i. None)\<rparr> :: ('a, 'b) machine"
  from True act obtain task a where d: "decrementing i sys = Some (task, a)"
    by auto
  then have l: "load_step i ?m = Some (?m\<lparr>fetched := (fetched ?m)(i \<mapsto> heap (pool sys) a)\<rparr>)"
    by (simp add: load_step_def)
  from load_store_is_step [OF l]
  have "store_step i (?m\<lparr>fetched := (fetched ?m)(i \<mapsto> heap (pool sys) a)\<rparr>) =
          Some \<lparr>shared = sys', fetched = (\<lambda>i. None)\<rparr>"
    using assms act by simp
  then have "execute [Load i, Store i] ?m = Some \<lparr>shared = sys', fetched = (\<lambda>i. None)\<rparr>"
    using l by simp
  then show ?thesis by blast
qed

lemma run_is_execute:
  assumes "run acts sys = Some sys'"
  shows "\<exists>xs. execute xs \<lparr>shared = sys, fetched = (\<lambda>i. None)\<rparr> = Some \<lparr>shared = sys', fetched = (\<lambda>i. None)\<rparr>"
  using assms
proof (induction acts arbitrary: sys)
  case Nil
  then have "execute [] \<lparr>shared = sys, fetched = (\<lambda>i. None)\<rparr> = Some \<lparr>shared = sys', fetched = (\<lambda>i. None)\<rparr>"
    by simp
  then show ?case by blast
next
  case (Cons act acts)
  then obtain mid where m: "step act sys = Some mid" "run acts mid = Some sys'"
    by (auto simp: bind_eq_Some_conv)
  from step_is_accesses [OF m(1)] obtain xs where
    xs: "execute xs \<lparr>shared = sys, fetched = (\<lambda>i. None)\<rparr> = Some \<lparr>shared = mid, fetched = (\<lambda>i. None)\<rparr>"
    by blast
  from Cons.IH [OF m(2)] obtain ys where
    ys: "execute ys \<lparr>shared = mid, fetched = (\<lambda>i. None)\<rparr> = Some \<lparr>shared = sys', fetched = (\<lambda>i. None)\<rparr>"
    by blast
  have "execute (xs @ ys) \<lparr>shared = sys, fetched = (\<lambda>i. None)\<rparr> = Some \<lparr>shared = sys', fetched = (\<lambda>i. None)\<rparr>"
    using xs ys by (simp add: execute_append)
  then show ?case by blast
qed

lemma reachable_in_machine:
  "run acts (boot tc h w) = Some sys \<Longrightarrow>
   \<exists>xs. execute xs (start tc h w) = Some \<lparr>shared = sys, fetched = (\<lambda>i. None)\<rparr>"
  using run_is_execute [of acts "boot tc h w" sys] by (simp add: start_def)

text \<open>
  Claim C2 against the code. On a pool with two workers a thread calls
  \<^verbatim>\<open>RunTask(f, (), (), 2, true)\<close>, where \<open>f\<close> is done at once. Each worker dequeues one of
  the two tasks, runs it and gets \<^verbatim>\<open>TR_OK\<close>; the counter is 2. Both workers read the
  counter (2) before either writes it back: after the two writes the counter is 1,
  while both tasks are finished and none is queued, held by a worker or purged. The
  call is still waiting and its return is not enabled. When one decrement follows the
  other the counter ends at 0.

  On the other path that decrements, \<^verbatim>\<open>Flush\<close>, the counter does not follow the
  dispositions: with two queued tasks whose callback asks to be rerun, \<^verbatim>\<open>Flush\<close> makes
  one invocation of each (both return \<^verbatim>\<open>TR_RERUN\<close>) and brings the counter from 2 to 0.

  On a pool without workers the blocking call has returned while its two tasks are
  queued: they point to the counter of a call that is over.
\<close>

theorem counter_loses_a_decrement:
  "execute finish_together (start 2 no_counters 0) \<noteq> None
   \<and> workers (shared (after_accesses 2 both_returned)) =
       [Returned (new_task done_at_once () () (Some 0) 0) TR_OK,
        Returned (new_task done_at_once () () (Some 0) 1) TR_OK]
   \<and> heap (pool (shared (after_accesses 2 both_returned))) 0 = 2
   \<and> fetched (after_accesses 2 (both_returned @ [Load 0, Load 1])) 0 = Some 2
   \<and> fetched (after_accesses 2 (both_returned @ [Load 0, Load 1])) 1 = Some 2
   \<and> heap (pool (shared (after_accesses 2 finish_together))) 0 = 1
   \<and> m_TaskList (pool (shared (after_accesses 2 finish_together))) = []
   \<and> workers (shared (after_accesses 2 finish_together)) = [Draining, Draining]
   \<and> completed (shared (after_accesses 2 finish_together)) =
       [new_task done_at_once () () (Some 0) 0, new_task done_at_once () () (Some 0) 1]
   \<and> purged (shared (after_accesses 2 finish_together)) = []
   \<and> outstanding (shared (after_accesses 2 finish_together)) 0 = 0
   \<and> map_option c_pc (calls (shared (after_accesses 2 finish_together)) 0) = Some Waiting
   \<and> access_step (Plain (RunTask_step 0)) (after_accesses 2 finish_together) = None
   \<and> heap (pool (shared (after_accesses 2 finish_in_turn))) 0 = 0
   \<and> heap (pool (after_schedule 1 (enqueue_two rerun_four_times))) 0 = 2
   \<and> invoke (new_task rerun_four_times () () (Some 0) 0) 0 = (TR_RERUN, 1)
   \<and> invoke (new_task rerun_four_times () () (Some 0) 1) 1 = (TR_RERUN, 2)
   \<and> world (pool (after_schedule 1 (enqueue_two rerun_four_times @ [Call_Flush]))) = 2
   \<and> heap (pool (after_schedule 1 (enqueue_two rerun_four_times @ [Call_Flush]))) 0 = 0
   \<and> map_option c_pc (calls (after_schedule 0 (enqueue_two done_at_once @ [RunTask_step 0])) 0) =
       Some Finished
   \<and> map m_pActionRef (m_TaskList (pool (after_schedule 0 (enqueue_two done_at_once @ [RunTask_step 0])))) =
       [Some 0, Some 0]"
  by (simp add: access_defs eval_defs outstanding_def in_hand_def hand_def replicate_two)

subsection \<open>Purging\<close>

lemma step_purged_grows:
  assumes "step act sys = Some sys'"
  shows "\<exists>xs. purged sys' = purged sys @ xs"
  using assms
  by (cases act)
     (auto simp: worker_step_def enter_step_def call_step_def purge_step_def flush_step_def wait_step_def
           split: option.splits call_pc.splits if_splits worker.splits prod.splits)

lemma step_keeps_waiting:
  assumes "step act sys = Some sys'" "calls sys a = Some c" "c_pc c = Waiting"
      and "must_wait (pool sys) (c_block c) a"
  shows "calls sys' a = Some c"
proof (cases act)
  case (RunTask_step b)
  show ?thesis
  proof (cases "b = a")
    case True
    then show ?thesis using assms RunTask_step by (simp add: call_step_def)
  next
    case False
    then show ?thesis using assms RunTask_step
      by (auto simp: call_step_def split: option.splits call_pc.splits if_splits)
  qed
next
  case (RunTask_enter b func p0 p1 n block)
  then show ?thesis using assms by (auto simp: enter_step_def split: if_splits)
qed (use assms in \<open>auto simp: worker_step_def purge_step_def flush_step_def wait_step_def
           split: option.splits if_splits worker.splits prod.splits\<close>)

lemma purged_counter_stuck:
  assumes con: "consistent sys" and call: "calls sys a = Some c" and pc: "c_pc c = Waiting"
      and block: "c_block c" and thr: "m_hThreads (pool sys) \<noteq> 0"
      and pur: "members a (purged sys) \<noteq> {#}"
      and run: "run acts sys = Some sys'"
  shows "consistent sys' \<and> calls sys' a = Some c \<and> m_hThreads (pool sys') \<noteq> 0
         \<and> members a (purged sys') \<noteq> {#} \<and> must_wait (pool sys') (c_block c) a"
  using con call thr pur run
proof (induction acts arbitrary: sys)
  case Nil
  then have "consistent_at sys a" by (simp add: consistent_def)
  then have "unat (heap (pool sys) a) = outstanding sys a"
    using Nil.prems(2) by (simp add: consistent_at_def)
  then have "heap (pool sys) a \<noteq> 0"
    using Nil.prems(4) by (auto simp: outstanding_def)
  then show ?case using Nil block by (simp add: must_wait_def)
next
  case (Cons act acts)
  then obtain mid where m: "step act sys = Some mid" "run acts mid = Some sys'"
    by (auto simp: bind_eq_Some_conv)
  have "consistent_at sys a" using Cons.prems(1) by (simp add: consistent_def)
  then have "unat (heap (pool sys) a) = outstanding sys a"
    using Cons.prems(2) by (simp add: consistent_at_def)
  then have "heap (pool sys) a \<noteq> 0"
    using Cons.prems(4) by (auto simp: outstanding_def)
  then have mw: "must_wait (pool sys) (c_block c) a"
    using Cons.prems(3) block by (simp add: must_wait_def)
  have 1: "consistent mid" using consistent_step [OF Cons.prems(1) m(1)] .
  have 2: "calls mid a = Some c" using step_keeps_waiting [OF m(1) Cons.prems(2) pc mw] .
  have 3: "m_hThreads (pool mid) \<noteq> 0" using step_threads [OF m(1)] Cons.prems(3) by simp
  have 4: "members a (purged mid) \<noteq> {#}"
    using step_purged_grows [OF m(1)] Cons.prems(4) by auto
  show ?case using Cons.IH [OF 1 2 3 4 m(2)] .
qed

text \<open>
  Claim C8. \<^verbatim>\<open>PurgeAllPendingTasks\<close> empties the queue and changes nothing else in the
  pool: no callback runs and no counter is touched. As a step of the system (inside
  the critical section, hence atomic for the queue) it leaves the workers, with the
  tasks they hold, and the calls as they are. A blocking call on a pool with workers,
  waiting while one of its tasks has been purged, never returns: in every later state
  it is still waiting, its counter is not zero and its return is not enabled.
\<close>

theorem purge_discards_without_counting:
  "PurgeAllPendingTasks s = s\<lparr>m_TaskList := []\<rparr>
   \<and> (step Call_PurgeAllPendingTasks sys = Some sys1 \<longrightarrow>
        sys1 = sys\<lparr>pool := (pool sys)\<lparr>m_TaskList := []\<rparr>,
                   purged := purged sys @ m_TaskList (pool sys)\<rparr>)
   \<and> (run acts (boot tc h w) = Some sys \<and> tc \<noteq> 0
        \<and> calls sys a = Some c \<and> c_block c \<and> c_pc c = Waiting
        \<and> members a (purged sys) \<noteq> {#} \<and> run acts' sys = Some sys' \<longrightarrow>
          calls sys' a = Some c \<and> heap (pool sys') a \<noteq> 0 \<and> step (RunTask_step a) sys' = None)"
proof (intro conjI impI)
  show "PurgeAllPendingTasks s = s\<lparr>m_TaskList := []\<rparr>"
    by (simp add: PurgeAllPendingTasks_def)
  show "sys1 = sys\<lparr>pool := (pool sys)\<lparr>m_TaskList := []\<rparr>,
                   purged := purged sys @ m_TaskList (pool sys)\<rparr>"
    if "step Call_PurgeAllPendingTasks sys = Some sys1"
    using that by (auto simp: purge_step_def PurgeAllPendingTasks_def split: if_splits)
  assume a: "run acts (boot tc h w) = Some sys \<and> tc \<noteq> 0
        \<and> calls sys a = Some c \<and> c_block c \<and> c_pc c = Waiting
        \<and> members a (purged sys) \<noteq> {#} \<and> run acts' sys = Some sys'"
  then have reach: "run acts (boot tc h w) = Some sys" by simp
  have con: "consistent sys" using reachable_consistent [OF reach] .
  have thr: "m_hThreads (pool sys) \<noteq> 0" using a reachable_threads [OF reach] by simp
  have st: "consistent sys' \<and> calls sys' a = Some c \<and> m_hThreads (pool sys') \<noteq> 0
         \<and> members a (purged sys') \<noteq> {#} \<and> must_wait (pool sys') (c_block c) a"
    using purged_counter_stuck [OF con _ _ _ thr, of a c acts' sys'] a by blast
  show "calls sys' a = Some c" using st by simp
  show "heap (pool sys') a \<noteq> 0" using st by (simp add: must_wait_def)
  show "step (RunTask_step a) sys' = None" using st a by (simp add: call_step_def)
qed

theorem purge_witness:
  "calls (after_schedule 1 (enqueue_two done_at_once @ [Call_PurgeAllPendingTasks] @ [Worker 0, Worker 0])) 0 =
     Some \<lparr>c_func = done_at_once, c_param0 = (), c_param1 = (), c_numtimes = 2,
           c_block = True, c_pc = Waiting\<rparr>
   \<and> heap (pool (after_schedule 1 (enqueue_two done_at_once @ [Call_PurgeAllPendingTasks] @ [Worker 0, Worker 0]))) 0 \<noteq> 0
   \<and> step (RunTask_step 0)
        (after_schedule 1 (enqueue_two done_at_once @ [Call_PurgeAllPendingTasks] @ [Worker 0, Worker 0])) = None
   \<and> after_schedule 1 (enqueue_two done_at_once @ [Call_PurgeAllPendingTasks]) =
       (after_schedule 1 (enqueue_two done_at_once))
         \<lparr>pool := (pool (after_schedule 1 (enqueue_two done_at_once)))\<lparr>m_TaskList := []\<rparr>,
          purged := purged (after_schedule 1 (enqueue_two done_at_once))
                      @ m_TaskList (pool (after_schedule 1 (enqueue_two done_at_once)))\<rparr>"
proof -
  let ?c = "\<lparr>c_func = done_at_once, c_param0 = (), c_param1 = (), c_numtimes = 2,
             c_block = True, c_pc = Waiting\<rparr>"
  let ?before = "after_schedule 1 (enqueue_two done_at_once)"
  let ?sys = "after_schedule 1 (enqueue_two done_at_once @ [Call_PurgeAllPendingTasks])"
  let ?later = "after_schedule 1 (enqueue_two done_at_once @ [Call_PurgeAllPendingTasks] @ [Worker 0, Worker 0])"
  have r: "run (enqueue_two done_at_once @ [Call_PurgeAllPendingTasks]) (boot 1 no_counters 0) = Some ?sys"
    by (simp add: eval_defs)
  have p: "step Call_PurgeAllPendingTasks ?before = Some ?sys"
    by (simp add: eval_defs)
  have c: "calls ?sys 0 = Some ?c" by (simp add: eval_defs)
  have m: "members 0 (purged ?sys) \<noteq> {#}" by (simp add: eval_defs)
  have l: "run [Worker 0, Worker 0] ?sys = Some ?later"
    by (simp add: eval_defs)
  note t = purge_discards_without_counting [where sys = ?before and ?sys1.0 = ?sys]
  note u = purge_discards_without_counting [where sys = ?sys and a = 0 and c = ?c
             and acts = "enqueue_two done_at_once @ [Call_PurgeAllPendingTasks]" and tc = 1
             and h = no_counters and w = 0 and acts' = "[Worker 0, Worker 0]" and sys' = ?later]
  have "calls ?later 0 = Some ?c \<and> heap (pool ?later) 0 \<noteq> 0 \<and> step (RunTask_step 0) ?later = None"
    using u [THEN conjunct2, THEN conjunct2] r c m l by simp
  moreover have "?sys = ?before\<lparr>pool := (pool ?before)\<lparr>m_TaskList := []\<rparr>,
          purged := purged ?before @ m_TaskList (pool ?before)\<rparr>"
    using t [THEN conjunct2, THEN conjunct1] p by simp
  ultimately show ?thesis by simp
qed

subsection \<open>The rerun loop\<close>

lemma rerun_loop_unfold:
  "rerun_loop task w =
     (if fst (invoke task w) = TR_RERUN then rerun_loop task (snd (invoke task w))
      else Some (invoke task w))"
  by (subst rerun_loop.simps) (simp add: case_prod_beta)

lemma rerun_loop_reruns:
  "(\<forall>i<k. fst (invoke task (after i task w)) = TR_RERUN) \<Longrightarrow>
   fst (invoke task (after k task w)) \<noteq> TR_RERUN \<Longrightarrow>
   rerun_loop task w = Some (invoke task (after k task w))"
proof (induction k arbitrary: w)
  case 0
  then show ?case
    by (subst rerun_loop_unfold) simp
next
  case (Suc k)
  have first: "fst (invoke task w) = TR_RERUN"
    using Suc.prems(1) [rule_format, of 0] by simp
  have rest: "\<forall>i<k. fst (invoke task (after i task (snd (invoke task w)))) = TR_RERUN"
  proof (intro allI impI)
    fix i assume "i < k"
    then have "Suc i < Suc k" by simp
    from Suc.prems(1) [rule_format, OF this]
    show "fst (invoke task (after i task (snd (invoke task w)))) = TR_RERUN" by simp
  qed
  have last: "fst (invoke task (after k task (snd (invoke task w)))) \<noteq> TR_RERUN"
    using Suc.prems(2) by simp
  have "rerun_loop task w = rerun_loop task (snd (invoke task w))"
    using first by (subst rerun_loop_unfold) simp
  then show ?case
    using Suc.IH [OF rest last] by simp
qed

lemma rerun_loop_Some:
  assumes "rerun_loop task w = Some y"
  shows "\<exists>k. (\<forall>i<k. fst (invoke task (after i task w)) = TR_RERUN)
            \<and> y = invoke task (after k task w) \<and> fst y \<noteq> TR_RERUN"
proof (rule rerun_loop.raw_induct [where P = "\<lambda>t v z. \<exists>k. (\<forall>i<k. fst (invoke t (after i t v)) = TR_RERUN)
            \<and> z = invoke t (after k t v) \<and> fst z \<noteq> TR_RERUN", OF _ assms])
  fix loop t v z
  assume IH: "\<And>t v z. loop t v = Some z \<Longrightarrow>
     \<exists>k. (\<forall>i<k. fst (invoke t (after i t v)) = TR_RERUN)
            \<and> z = invoke t (after k t v) \<and> fst z \<noteq> TR_RERUN"
   and body: "(case invoke t v of (ret, w') \<Rightarrow> if ret = TR_RERUN then loop t w' else Some (ret, w')) = Some z"
  show "\<exists>k. (\<forall>i<k. fst (invoke t (after i t v)) = TR_RERUN)
            \<and> z = invoke t (after k t v) \<and> fst z \<noteq> TR_RERUN"
  proof (cases "fst (invoke t v) = TR_RERUN")
    case True
    then have "loop t (snd (invoke t v)) = Some z"
      using body by (simp add: case_prod_beta)
    from IH [OF this] obtain k where
      k: "\<forall>i<k. fst (invoke t (after i t (snd (invoke t v)))) = TR_RERUN"
         "z = invoke t (after k t (snd (invoke t v)))" "fst z \<noteq> TR_RERUN"
      by blast
    have "\<forall>i<Suc k. fst (invoke t (after i t v)) = TR_RERUN"
    proof (intro allI impI)
      fix i assume "i < Suc k"
      then show "fst (invoke t (after i t v)) = TR_RERUN"
        using True k(1) by (cases i) simp_all
    qed
    moreover have "z = invoke t (after (Suc k) t v)" using k(2) by simp
    ultimately show ?thesis using k(3) by blast
  next
    case False
    then have "z = invoke t v" using body by (simp add: case_prod_beta)
    then have "(\<forall>i<0. fst (invoke t (after i t v)) = TR_RERUN)
            \<and> z = invoke t (after 0 t v) \<and> fst z \<noteq> TR_RERUN"
      using False by simp
    then show ?thesis by blast
  qed
qed

lemma rerun_loop_None:
  assumes all: "\<forall>i. fst (invoke task (after i task w)) = TR_RERUN"
  shows "rerun_loop task w = None"
proof (cases "rerun_loop task w")
  case None then show ?thesis .
next
  case (Some y)
  from rerun_loop_Some [OF this] all show ?thesis by auto
qed


lemma after_Suc_back: "after (Suc k) task w = snd (invoke task (after k task w))"
  by (induction k arbitrary: w) simp_all

lemma run_one_None: "rerun_loop task (world s) = None \<Longrightarrow> run_one task s = None"
  by (simp add: run_one_def)

text \<open>
  Claim C6. If the callback of a dequeued task returns \<^verbatim>\<open>TR_RERUN\<close> on its first \<open>k\<close>
  invocations and another disposition on the next one, the worker invokes it these
  \<open>k + 1\<close> times in a row and only then interprets the disposition. On \<^verbatim>\<open>TR_REQUEUE\<close>
  the pool it leaves is the pool it found with the user state after the \<open>k + 1\<close>
  invocations and the task appended to the queue: no counter has changed. On \<^verbatim>\<open>TR_OK\<close>
  it is the pool it found with that user state and the counter of the task one less:
  the queue has not changed, and no counter if the task has none. A callback that
  returns \<^verbatim>\<open>TR_RERUN\<close> for ever keeps the worker in the loop. In the interleaved system
  a worker about to invoke the callback of its task changes the user state only, and
  on \<^verbatim>\<open>TR_RERUN\<close> stays where it is, about to invoke the same task; on another
  disposition it goes on to interpret it. In the machine, the read and the write of a
  worker whose task returned \<^verbatim>\<open>TR_OK\<close>, with no access of another thread between them,
  take one off the counter of the task.
\<close>

theorem rerun_until_other_disposition:
  assumes reruns: "\<forall>i<k. fst (invoke task (after i task (world s))) = TR_RERUN"
      and last: "fst (invoke task (after k task (world s))) = ret" and other: "ret \<noteq> TR_RERUN"
  shows "rerun_loop task (world s) = Some (ret, after (Suc k) task (world s))
         \<and> (ret = TR_REQUEUE \<longrightarrow>
              run_one task s =
                Some (s\<lparr>world := after (Suc k) task (world s), m_TaskList := m_TaskList s @ [task]\<rparr>))
         \<and> (ret = TR_OK \<and> m_pActionRef task = Some a \<longrightarrow>
              run_one task s =
                Some (s\<lparr>world := after (Suc k) task (world s), heap := (heap s)(a := heap s a - 1)\<rparr>))
         \<and> (ret = TR_OK \<and> m_pActionRef task = None \<longrightarrow>
              run_one task s = Some (s\<lparr>world := after (Suc k) task (world s)\<rparr>))
         \<and> ((\<forall>i. fst (invoke task2 (after i task2 (world s2))) = TR_RERUN) \<longrightarrow> run_one task2 s2 = None)
         \<and> (j < length (workers sys) \<and> workers sys ! j = Running task3 \<longrightarrow>
             step (Worker j) sys =
               Some (sys\<lparr>pool := (pool sys)\<lparr>world := snd (invoke task3 (world (pool sys)))\<rparr>,
                         workers := (workers sys)
                           [j := if fst (invoke task3 (world (pool sys))) = TR_RERUN then Running task3
                                 else Returned task3 (fst (invoke task3 (world (pool sys))))]\<rparr>))
         \<and> (l < length (workers (shared m)) \<and> workers (shared m) ! l = Returned task4 TR_OK
               \<and> m_pActionRef task4 = Some b \<and> fetched m l = None \<longrightarrow>
             execute [Load l, Store l] m =
               Some (m\<lparr>shared := (shared m)
                          \<lparr>pool := (pool (shared m))
                             \<lparr>heap := (heap (pool (shared m)))(b := heap (pool (shared m)) b - 1)\<rparr>,
                           workers := (workers (shared m))[l := Draining],
                           completed := completed (shared m) @ [task4]\<rparr>\<rparr>))"
proof (intro conjI impI)
  have "rerun_loop task (world s) = Some (invoke task (after k task (world s)))"
    using reruns last other by (intro rerun_loop_reruns) simp_all
  then show loop: "rerun_loop task (world s) = Some (ret, after (Suc k) task (world s))"
    using last by (simp add: after_Suc_back prod_eq_iff del: after.simps)
  show "run_one task s =
          Some (s\<lparr>world := after (Suc k) task (world s), m_TaskList := m_TaskList s @ [task]\<rparr>)"
    if "ret = TR_REQUEUE"
    using loop that by (simp add: run_one_def dispose_def del: after.simps)
  show "run_one task s =
          Some (s\<lparr>world := after (Suc k) task (world s), heap := (heap s)(a := heap s a - 1)\<rparr>)"
    if "ret = TR_OK \<and> m_pActionRef task = Some a"
    using loop that by (simp add: run_one_def dispose_def release_ref_def del: after.simps)
  show "run_one task s = Some (s\<lparr>world := after (Suc k) task (world s)\<rparr>)"
    if "ret = TR_OK \<and> m_pActionRef task = None"
    using loop that by (simp add: run_one_def dispose_def release_ref_def del: after.simps)
  show "run_one task2 s2 = None" if "\<forall>i. fst (invoke task2 (after i task2 (world s2))) = TR_RERUN"
    using rerun_loop_None [OF that] by (rule run_one_None)
  show "step (Worker j) sys =
               Some (sys\<lparr>pool := (pool sys)\<lparr>world := snd (invoke task3 (world (pool sys)))\<rparr>,
                         workers := (workers sys)
                           [j := if fst (invoke task3 (world (pool sys))) = TR_RERUN then Running task3
                                 else Returned task3 (fst (invoke task3 (world (pool sys))))]\<rparr>)"
    if "j < length (workers sys) \<and> workers sys ! j = Running task3"
    using that by (simp add: worker_step_def case_prod_beta)
  show "execute [Load l, Store l] m =
               Some (m\<lparr>shared := (shared m)
                          \<lparr>pool := (pool (shared m))
                             \<lparr>heap := (heap (pool (shared m)))(b := heap (pool (shared m)) b - 1)\<rparr>,
                           workers := (workers (shared m))[l := Draining],
                           completed := completed (shared m) @ [task4]\<rparr>\<rparr>)"
    if d: "l < length (workers (shared m)) \<and> workers (shared m) ! l = Returned task4 TR_OK
               \<and> m_pActionRef task4 = Some b \<and> fetched m l = None"
  proof -
    have "(fetched m)(l := None) = fetched m" using d by auto
    then show ?thesis
      using d by (simp add: load_step_def store_step_def decrementing_def)
  qed
qed

theorem rerun_witness:
  "run_one (new_task rerun_four_times () () (Some 0) 0)
      ((Create_count 1 no_counters 0)\<lparr>heap := no_counters(0 := 2)\<rparr>) =
     Some ((Create_count 1 no_counters 0)\<lparr>heap := no_counters(0 := 1), world := 5\<rparr>)
   \<and> run_one (new_task rerun_then_requeue () () (Some 0) 0)
      ((Create_count 1 no_counters 0)\<lparr>heap := no_counters(0 := 2)\<rparr>) =
     Some ((Create_count 1 no_counters 0)
             \<lparr>m_TaskList := [new_task rerun_then_requeue () () (Some 0) 0],
              heap := no_counters(0 := 2), world := 3\<rparr>)
   \<and> run_one (new_task rerun_four_times () () None 0) (Create_count 1 no_counters 0) =
       Some ((Create_count 1 no_counters 0)\<lparr>world := 5\<rparr>)
   \<and> run_one (new_task rerun_for_ever () () (Some 0) 0) (Create_count 1 no_counters 0) = None
   \<and> step (Worker 0) (after_schedule 1 (enqueue_two rerun_four_times @ [Worker 0, Worker 0])) =
       Some ((after_schedule 1 (enqueue_two rerun_four_times @ [Worker 0, Worker 0]))
               \<lparr>pool := (pool (after_schedule 1 (enqueue_two rerun_four_times @ [Worker 0, Worker 0])))
                          \<lparr>world := 1\<rparr>\<rparr>)
   \<and> workers (after_schedule 1 (enqueue_two rerun_four_times @ [Worker 0, Worker 0])) =
       [Running (new_task rerun_four_times () () (Some 0) 0)]
   \<and> workers (shared (after_accesses 1 (map Plain (enqueue_two done_at_once @ [Worker 0, Worker 0, Worker 0])))) =
       [Returned (new_task done_at_once () () (Some 0) 0) TR_OK]
   \<and> heap (pool (shared (after_accesses 1
          (map Plain (enqueue_two done_at_once @ [Worker 0, Worker 0, Worker 0]))))) 0 = 2
   \<and> map_option (\<lambda>m. heap (pool (shared m)) 0)
        (execute [Load 0, Store 0]
           (after_accesses 1 (map Plain (enqueue_two done_at_once @ [Worker 0, Worker 0, Worker 0])))) =
       Some 1"
proof -
  let ?fresh = "Create_count 1 no_counters 0 :: (unit, nat) CThreadPool"
  let ?s = "?fresh\<lparr>heap := no_counters(0 := 2)\<rparr>"
  let ?t = "new_task rerun_four_times () () (Some 0) 0"
  let ?q = "new_task rerun_then_requeue () () (Some 0) 0"
  let ?n = "new_task rerun_four_times () () None 0"
  let ?e = "new_task rerun_for_ever () () (Some 0) 0"
  have w: "world ?s = 0" "world ?fresh = 0" by (simp_all add: Create_count_def Initialize_def)
  have at: "after i ?t 0 = i" for i
    by (induction i) (simp_all add: after_Suc_back invoke_def new_task_def rerun_four_times_def del: after.simps(2))
  have aq: "after i ?q 0 = i" for i
    by (induction i) (simp_all add: after_Suc_back invoke_def new_task_def rerun_then_requeue_def del: after.simps(2))
  have an: "after i ?n 0 = i" for i
    by (induction i) (simp_all add: after_Suc_back invoke_def new_task_def rerun_four_times_def del: after.simps(2))
  have t1: "\<forall>i<4. fst (invoke ?t (after i ?t (world ?s))) = TR_RERUN"
    by (simp add: w at) (simp add: invoke_def new_task_def rerun_four_times_def)
  have t2: "fst (invoke ?t (after 4 ?t (world ?s))) = TR_OK"
    by (simp add: w at) (simp add: invoke_def new_task_def rerun_four_times_def)
  have q1: "\<forall>i<2. fst (invoke ?q (after i ?q (world ?s))) = TR_RERUN"
    by (simp add: w aq) (simp add: invoke_def new_task_def rerun_then_requeue_def)
  have q2: "fst (invoke ?q (after 2 ?q (world ?s))) = TR_REQUEUE"
    by (simp add: w aq) (simp add: invoke_def new_task_def rerun_then_requeue_def)
  have n1: "\<forall>i<4. fst (invoke ?n (after i ?n (world ?fresh))) = TR_RERUN"
    by (simp add: w an) (simp add: invoke_def new_task_def rerun_four_times_def)
  have n2: "fst (invoke ?n (after 4 ?n (world ?fresh))) = TR_OK"
    by (simp add: w an) (simp add: invoke_def new_task_def rerun_four_times_def)
  let ?sys = "after_schedule 1 (enqueue_two rerun_four_times @ [Worker 0, Worker 0])"
  have k: "length (workers ?sys) = 1" "workers ?sys ! 0 = Running ?t" "world (pool ?sys) = 0"
      "workers ?sys = [Running ?t]"
    by (simp_all add: eval_defs)
  have v: "invoke ?t 0 = (TR_RERUN, 1)"
    by (simp add: invoke_def new_task_def rerun_four_times_def)
  have e: "\<forall>i. fst (invoke ?e (after i ?e (world ?fresh))) = TR_RERUN"
    by (simp add: invoke_def new_task_def rerun_for_ever_def)
  have 1: "run_one ?t ?s = Some (?fresh\<lparr>heap := no_counters(0 := 1), world := 5\<rparr>)"
    using rerun_until_other_disposition [OF t1 t2, where a = 0, THEN conjunct2, THEN conjunct2, THEN conjunct1]
    by (simp add: w at Create_count_def Initialize_def del: after.simps)
  have 2: "run_one ?q ?s = Some (?fresh\<lparr>m_TaskList := [?q], heap := no_counters(0 := 2), world := 3\<rparr>)"
    using rerun_until_other_disposition [OF q1 q2, THEN conjunct2, THEN conjunct1]
    by (simp add: w aq Create_count_def Initialize_def del: after.simps)
  have 3: "run_one ?n ?fresh = Some (?fresh\<lparr>world := 5\<rparr>)"
    using rerun_until_other_disposition [OF n1 n2, THEN conjunct2, THEN conjunct2, THEN conjunct2, THEN conjunct1]
    by (simp add: w an del: after.simps)
  have 4: "run_one ?e ?fresh = None"
    using rerun_until_other_disposition [OF t1 t2, where ?task2.0 = ?e and ?s2.0 = ?fresh,
            THEN conjunct2, THEN conjunct2, THEN conjunct2, THEN conjunct2, THEN conjunct1] e
    by blast
  have 5: "step (Worker 0) ?sys = Some (?sys\<lparr>pool := (pool ?sys)\<lparr>world := 1\<rparr>\<rparr>)"
    using rerun_until_other_disposition [OF t1 t2, where sys = ?sys and j = 0 and ?task3.0 = ?t,
            THEN conjunct2, THEN conjunct2, THEN conjunct2, THEN conjunct2, THEN conjunct2,
            THEN conjunct1] k v
    by simp
  let ?m = "after_accesses 1 (map Plain (enqueue_two done_at_once @ [Worker 0, Worker 0, Worker 0]))"
  let ?d = "new_task done_at_once () () (Some 0) 0"
  have mw: "workers (shared ?m) = [Returned ?d TR_OK]" and mh: "heap (pool (shared ?m)) 0 = 2"
    and mf: "fetched ?m 0 = None"
    by (simp_all add: access_defs eval_defs)
  have "execute [Load 0, Store 0] ?m =
          Some (?m\<lparr>shared := (shared ?m)
                     \<lparr>pool := (pool (shared ?m))
                        \<lparr>heap := (heap (pool (shared ?m)))(0 := heap (pool (shared ?m)) 0 - 1)\<rparr>,
                      workers := (workers (shared ?m))[0 := Draining],
                      completed := completed (shared ?m) @ [?d]\<rparr>\<rparr>)"
    using rerun_until_other_disposition [OF t1 t2, where m = ?m and l = 0 and ?task4.0 = ?d and b = 0,
            THEN conjunct2, THEN conjunct2, THEN conjunct2, THEN conjunct2, THEN conjunct2,
            THEN conjunct2] mw mf
    by simp
  then have 6: "map_option (\<lambda>m. heap (pool (shared m)) 0) (execute [Load 0, Store 0] ?m) = Some 1"
    using mh by simp
  show ?thesis using 1 2 3 4 5 6 k(4) mw mh by simp
qed

subsection \<open>Requeue\<close>

lemma replicate_three: "replicate 3 x = [x, x, x]"
  by (simp add: numeral_3_eq_3)

text \<open>
  What a worker does with a task whose callback returned \<^verbatim>\<open>TR_REQUEUE\<close>: once it has the
  critical section it appends that same task, with the reference it has, to the tail
  of the queue and changes nothing else in the pool. The store of the counters and the
  run semaphore are as they were.
\<close>

lemma requeue_pushes_back:
  "(rerun_loop task (world s) = Some (TR_REQUEUE, w') \<longrightarrow>
      run_one task s = Some (s\<lparr>world := w', m_TaskList := m_TaskList s @ [task]\<rparr>))
   \<and> dispose task TR_REQUEUE s = s\<lparr>m_TaskList := m_TaskList s @ [task]\<rparr>
   \<and> heap (dispose task TR_REQUEUE s) = heap s
   \<and> hSemRun (dispose task TR_REQUEUE s) = hSemRun s
   \<and> (i < length (workers sys) \<and> workers sys ! i = Returned task TR_REQUEUE \<longrightarrow>
       step (Worker i) sys =
         (if m_csTaskList sys = None
          then Some (sys\<lparr>pool := (pool sys)\<lparr>m_TaskList := m_TaskList (pool sys) @ [task]\<rparr>,
                         workers := (workers sys)[i := Draining]\<rparr>)
          else None))"
proof (intro conjI impI)
  show "run_one task s = Some (s\<lparr>world := w', m_TaskList := m_TaskList s @ [task]\<rparr>)"
    if "rerun_loop task (world s) = Some (TR_REQUEUE, w')"
    using that by (simp add: run_one_def dispose_def)
  show "dispose task TR_REQUEUE s = s\<lparr>m_TaskList := m_TaskList s @ [task]\<rparr>"
    by (simp add: dispose_def)
  show "heap (dispose task TR_REQUEUE s) = heap s"
    by (simp add: dispose_def)
  show "hSemRun (dispose task TR_REQUEUE s) = hSemRun s"
    by (simp add: dispose_def)
  show "step (Worker i) sys =
         (if m_csTaskList sys = None
          then Some (sys\<lparr>pool := (pool sys)\<lparr>m_TaskList := m_TaskList (pool sys) @ [task]\<rparr>,
                         workers := (workers sys)[i := Draining]\<rparr>)
          else None)"
    if "i < length (workers sys) \<and> workers sys ! i = Returned task TR_REQUEUE"
    using that by (simp add: worker_step_def dispose_def)
qed

text \<open>
  Claim C4 against the code. The worker does not raise the run signal when it requeues
  a task. One worker has taken the signal of a \<^verbatim>\<open>RunTask\<close> of two tasks (the semaphore is
  at 0), has dequeued the first and got \<^verbatim>\<open>TR_REQUEUE\<close> from it; after its next step, the
  requeue, the task is at the tail of the queue, its counter is still 2 and the
  semaphore is still at 0, where raising the signal would have set it to 1. With three
  workers, two of them holding a task to requeue and the third back at its wait: after
  the requeue of worker 0 a task is queued, the semaphore is at 0 and the idle worker
  stays blocked; had the signal been raised, its next step would be to wake up.
\<close>

theorem requeue_raises_no_signal:
  "workers (after_schedule 1 (enqueue_two requeue_twice @ [Worker 0, Worker 0, Worker 0])) =
     [Returned (new_task requeue_twice () () (Some 0) 0) TR_REQUEUE]
   \<and> hSemRun (pool (after_schedule 1 (enqueue_two requeue_twice @ [Worker 0, Worker 0, Worker 0]))) = Some 0
   \<and> hSemRun (pool (after_schedule 1 (enqueue_two requeue_twice @ [Worker 0, Worker 0, Worker 0, Worker 0]))) = Some 0
   \<and> hSemRun (signal_run (pool (after_schedule 1 (enqueue_two requeue_twice @ [Worker 0, Worker 0, Worker 0])))) = Some 1
   \<and> m_TaskList (pool (after_schedule 1 (enqueue_two requeue_twice @ [Worker 0, Worker 0, Worker 0, Worker 0]))) =
       [new_task requeue_twice () () (Some 0) 1, new_task requeue_twice () () (Some 0) 0]
   \<and> heap (pool (after_schedule 1 (enqueue_two requeue_twice @ [Worker 0, Worker 0, Worker 0]))) 0 = 2
   \<and> heap (pool (after_schedule 1 (enqueue_two requeue_twice @ [Worker 0, Worker 0, Worker 0, Worker 0]))) 0 = 2
   \<and> run (one_idle @ [Worker 0]) (boot 3 no_counters 0) \<noteq> None
   \<and> workers (after_schedule 3 one_idle) =
       [Returned (new_task requeue_twice () () (Some 0) 0) TR_REQUEUE,
        Returned (new_task requeue_twice () () (Some 0) 1) TR_REQUEUE, Parked]
   \<and> m_TaskList (pool (after_schedule 3 one_idle)) = []
   \<and> hSemRun (pool (after_schedule 3 one_idle)) = Some 0
   \<and> workers (after_schedule 3 (one_idle @ [Worker 0])) =
       [Draining, Returned (new_task requeue_twice () () (Some 0) 1) TR_REQUEUE, Parked]
   \<and> m_TaskList (pool (after_schedule 3 (one_idle @ [Worker 0]))) = [new_task requeue_twice () () (Some 0) 0]
   \<and> hSemRun (pool (after_schedule 3 (one_idle @ [Worker 0]))) = Some 0
   \<and> step (Worker 2) (after_schedule 3 (one_idle @ [Worker 0])) = None
   \<and> map_option (\<lambda>sys. workers sys ! 2)
        (step (Worker 2)
           ((after_schedule 3 (one_idle @ [Worker 0]))
              \<lparr>pool := signal_run (pool (after_schedule 3 (one_idle @ [Worker 0])))\<rparr>)) = Some Draining"
  by (simp add: eval_defs one_idle_def replicate_three)

subsection \<open>Flush\<close>

lemma Flush_loop_fold:
  "Flush_loop ts (h, w) = (fold release_ref ts h, fold (\<lambda>t v. snd (invoke t v)) ts w)"
  by (induction ts arbitrary: h w) simp_all

text \<open>
  Claim C3 against the code. \<^verbatim>\<open>Flush\<close> invokes every queued task once, in order,
  decrements the counter of each and empties the queue; the value a callback returns
  plays no part. On a pool without workers holding two tasks whose callback asks to be
  requeued on its first two invocations, \<^verbatim>\<open>Flush\<close> makes 2 invocations (both return
  \<^verbatim>\<open>TR_REQUEUE\<close>), brings the counter from 2 to 0 and returns; a worker draining the same
  queue makes 4 invocations.
\<close>

theorem Flush_ignores_disposition:
  "Flush s = s\<lparr>m_TaskList := [], heap := fold release_ref (m_TaskList s) (heap s),
               world := fold (\<lambda>t v. snd (invoke t v)) (m_TaskList s) (world s)\<rparr>
   \<and> m_TaskList (pool (after_schedule 0 (enqueue_two requeue_twice))) =
       [new_task requeue_twice () () (Some 0) 0, new_task requeue_twice () () (Some 0) 1]
   \<and> invoke (new_task requeue_twice () () (Some 0) 0) 0 = (TR_REQUEUE, 1)
   \<and> invoke (new_task requeue_twice () () (Some 0) 1) 1 = (TR_REQUEUE, 2)
   \<and> world (Flush (pool (after_schedule 0 (enqueue_two requeue_twice)))) = 2
   \<and> heap (Flush (pool (after_schedule 0 (enqueue_two requeue_twice)))) 0 = 0
   \<and> m_TaskList (Flush (pool (after_schedule 0 (enqueue_two requeue_twice)))) = []
   \<and> map_option world (drain (pool (after_schedule 0 (enqueue_two requeue_twice)))) = Some 4"
proof (intro conjI)
  show "Flush s = s\<lparr>m_TaskList := [], heap := fold release_ref (m_TaskList s) (heap s),
               world := fold (\<lambda>t v. snd (invoke t v)) (m_TaskList s) (world s)\<rparr>"
    by (simp add: Flush_def Flush_loop_fold)
  show "map_option world (drain (pool (after_schedule 0 (enqueue_two requeue_twice)))) = Some 4"
    by (simp add: eval_defs drain.simps run_one_def rerun_loop.simps)
qed (simp_all add: eval_defs)

subsection \<open>WaitForAllTasks\<close>

lemma wait_empty_Some:
  assumes "wait_empty env s = Some s'"
  shows "m_TaskList s' = []"
proof (rule wait_empty.raw_induct [where P = "\<lambda>env s s'. m_TaskList s' = []", OF _ assms])
  fix loop env s s'
  assume IH: "\<And>env s s'. loop env s = Some s' \<Longrightarrow> m_TaskList s' = []"
     and body: "(if m_TaskList s \<noteq> [] then loop env (env s) else Some s) = Some s'"
  show "m_TaskList s' = []"
  proof (cases "m_TaskList s = []")
    case True
    then show ?thesis using body by simp
  next
    case False
    then have "loop env (env s) = Some s'" using body by simp
    then show ?thesis by (rule IH)
  qed
qed

lemma wait_empty_still:
  assumes "wait_empty env s = Some s'"
  shows "env = id \<longrightarrow> s' = s"
proof (rule wait_empty.raw_induct [where P = "\<lambda>env s s'. env = id \<longrightarrow> s' = s", OF _ assms])
  fix loop env s s'
  assume IH: "\<And>env s s'. loop env s = Some s' \<Longrightarrow> env = id \<longrightarrow> s' = s"
     and body: "(if m_TaskList s \<noteq> [] then loop env (env s) else Some s) = Some s'"
  show "env = id \<longrightarrow> s' = s"
  proof (cases "m_TaskList s = []")
    case True
    then show ?thesis using body by simp
  next
    case False
    then have "loop env (env s) = Some s'" using body by simp
    from IH [OF this] show ?thesis by auto
  qed
qed

lemma wait_empty_never: "m_TaskList s \<noteq> [] \<Longrightarrow> wait_empty id s = None"
proof (cases "wait_empty id s")
  case None
  then show ?thesis .
next
  case (Some s')
  assume ne: "m_TaskList s \<noteq> []"
  from wait_empty_still [OF Some] have "s' = s" by simp
  moreover from wait_empty_Some [OF Some] have "m_TaskList s' = []" .
  ultimately show ?thesis using ne by simp
qed

text \<open>
  Claim C7 against the code. The result of \<^verbatim>\<open>WaitForAllTasks\<close> does not depend on the
  timeout. On a pool without workers it is \<^verbatim>\<open>Flush\<close>; on a pool with workers it returns
  when it finds the queue empty. But on a pool with one worker and two queued tasks,
  with the other threads leaving the pool as it is during the wait,
  \<^verbatim>\<open>WaitForAllTasks(5)\<close> does not return.
\<close>

theorem WaitForAllTasks_ignores_timeout:
  "WaitForAllTasks env milliseconds s = WaitForAllTasks env 0 s
   \<and> WaitForAllTasks env milliseconds (s\<lparr>m_hThreads := 0\<rparr>) = Some (Flush (s\<lparr>m_hThreads := 0\<rparr>))
   \<and> WaitForAllTasks env milliseconds (s\<lparr>m_hThreads := 1, m_TaskList := []\<rparr>) =
       Some (s\<lparr>m_hThreads := 1, m_TaskList := []\<rparr>)
   \<and> m_hThreads (pool (after_schedule 1 (enqueue_two done_at_once))) = 1
   \<and> length (m_TaskList (pool (after_schedule 1 (enqueue_two done_at_once)))) = 2
   \<and> WaitForAllTasks id 5 (pool (after_schedule 1 (enqueue_two done_at_once))) = None"
proof (intro conjI)
  show "WaitForAllTasks env milliseconds s = WaitForAllTasks env 0 s"
    by (simp add: WaitForAllTasks_def)
  show "WaitForAllTasks env milliseconds (s\<lparr>m_hThreads := 0\<rparr>) = Some (Flush (s\<lparr>m_hThreads := 0\<rparr>))"
    by (simp add: WaitForAllTasks_def)
  show "WaitForAllTasks env milliseconds (s\<lparr>m_hThreads := 1, m_TaskList := []\<rparr>) =
       Some (s\<lparr>m_hThreads := 1, m_TaskList := []\<rparr>)"
    by (simp add: WaitForAllTasks_def) (subst wait_empty.simps, simp)
  show t: "m_hThreads (pool (after_schedule 1 (enqueue_two done_at_once))) = 1"
    by (simp add: eval_defs)
  show l: "length (m_TaskList (pool (after_schedule 1 (enqueue_two done_at_once)))) = 2"
    by (simp add: eval_defs)
  then have "m_TaskList (pool (after_schedule 1 (enqueue_two done_at_once))) \<noteq> []"
    by auto
  then show "WaitForAllTasks id 5 (pool (after_schedule 1 (enqueue_two done_at_once))) = None"
    using t by (simp add: WaitForAllTasks_def wait_empty_never)
qed

subsection \<open>The number of threads\<close>

lemma sum_fits:
  fixes cores adj :: "32 word"
  assumes "uint cores + sint adj < 2 ^ 31"
  shows "sint (cores + adj) = uint cores + sint adj"
proof -
  have lo: "- (2 ^ 31) \<le> uint cores + sint adj"
  proof -
    have "- (2 ^ 31) \<le> sint adj" using sint_ge [of adj] by simp
    moreover have "0 \<le> uint cores" by simp
    ultimately show ?thesis by linarith
  qed
  have "cores + adj = word_of_int (uint cores + sint adj)"
    by simp
  then have "sint (cores + adj) = signed_take_bit 31 (uint cores + sint adj)"
    by (simp only: sint_sbintrunc') simp
  also have "\<dots> = uint cores + sint adj"
    using lo assms by (simp add: signed_take_bit_int_eq_self)
  finally show ?thesis .
qed

lemma sint_max_int: "sint (max_int a b) = max (sint a) (sint b)"
  by (simp add: max_int_def max_def)

lemma unat_scast_pos:
  fixes m :: "32 word"
  assumes "0 \<le> sint m"
  shows "unat (scast m :: 64 word) = nat (sint m)"
proof -
  have "sint m < 2 ^ 31" using sint_lt [of m] by simp
  then have "sint m < 2 ^ 64" by simp
  then have "sint m mod 2 ^ 64 = sint m"
    using assms by simp
  moreover have "unat (scast m :: 64 word) = nat (sint m mod 2 ^ 64)"
    by (simp only: scast_eq unat_eq_nat_uint uint_word_of_int) simp
  ultimately show ?thesis by (simp only:)
qed

lemma ucast_UINT:
  fixes tc :: "64 word"
  assumes "unat tc < 2 ^ 32"
  shows "(ucast (ucast tc :: 32 word) :: 64 word) = tc"
proof -
  have "unat (ucast (ucast tc :: 32 word) :: 64 word) = unat tc"
    using assms by (simp add: unsigned_ucast_eq unsigned_take_bit_eq take_bit_nat_eq_self)
  then show ?thesis by (simp only: word_unat_eq_iff)
qed

lemma Initialize_threads: "m_hThreads (Initialize tc h w) = tc"
  by (simp add: Initialize_def)

lemma threads_two_args:
  assumes fits: "int (unat cores) + sint adj < 2 ^ 31"
      and small: "unat tpc * nat (max 1 (int (unat cores) + sint adj)) < 2 ^ 32"
  shows "unat (GetNumThreads (Create_cores cores tpc adj h w)) =
           unat tpc * nat (max 1 (int (unat cores) + sint adj))"
proof -
  let ?m = "max_int 1 (cores + adj)"
  have s: "sint (cores + adj) = int (unat cores) + sint adj"
    using sum_fits [of cores adj] fits by simp
  have m: "sint ?m = max 1 (int (unat cores) + sint adj)"
    by (simp add: sint_max_int s)
  then have "0 \<le> sint ?m" by simp
  then have c: "unat (adjusted_cores cores adj) = nat (max 1 (int (unat cores) + sint adj))"
    by (simp add: adjusted_cores_def unat_scast_pos m)
  have "unat tpc * unat (adjusted_cores cores adj) < 2 ^ 64"
    using small c by simp
  then have p: "unat (tpc * adjusted_cores cores adj) = unat tpc * unat (adjusted_cores cores adj)"
    using unat_mult_lem [of tpc "adjusted_cores cores adj"] by simp
  have "unat (tpc * adjusted_cores cores adj) < 2 ^ 32"
    using small c p by simp
  then have g: "GetNumThreads (Create_cores cores tpc adj h w) = tpc * adjusted_cores cores adj"
    by (simp add: GetNumThreads_def Create_cores_def Initialize_threads ucast_UINT)
  show ?thesis by (simp only: g p c)
qed

lemma threads_one_arg:
  "unat tc < 2 ^ 32 \<Longrightarrow> GetNumThreads (Create_count tc h w) = tc"
  by (simp add: GetNumThreads_def Create_count_def Initialize_threads ucast_UINT)


text \<open>
  Claim C9, as stated, fails where the arithmetic of the constructor wraps: on 8 cores
  \<^verbatim>\<open>Create(1, INT_MAX)\<close> yields a pool of 1 thread, where the formula of the claim gives
  2147483655.
\<close>

theorem thread_count_counterexample:
  "unat (GetNumThreads (Create_cores 8 1 2147483647 no_counters () :: (unit, unit) CThreadPool)) = 1
   \<and> unat (1 :: size_t) * nat (max 1 (int (unat (8 :: DWORD)) + sint (2147483647 :: 32 word))) = 2147483655"
  by (simp add: GetNumThreads_def Create_cores_def Initialize_def adjusted_cores_def max_int_def)

text \<open>
  Claim C9, amended. When the core count plus the adjustment does not exceed
  \<^verbatim>\<open>INT_MAX\<close> and \<open>threads_per_core * max(1, cores + adjustment)\<close> is below \<open>2^32\<close>,
  the pool of the two-argument \<^verbatim>\<open>Create\<close> reports exactly that product as its number of
  threads; the pool of \<^verbatim>\<open>Create(thread_count)\<close> reports \<open>thread_count\<close>, 0 included, for
  every \<open>thread_count\<close> below \<open>2^32\<close>; and no step of the system changes what
  \<^verbatim>\<open>GetNumThreads\<close> returns.
\<close>

theorem thread_count_resolution:
  "(int (unat cores) + sint adj < 2 ^ 31
      \<and> unat tpc * nat (max 1 (int (unat cores) + sint adj)) < 2 ^ 32 \<longrightarrow>
    unat (GetNumThreads (Create_cores cores tpc adj h w)) =
      unat tpc * nat (max 1 (int (unat cores) + sint adj)))
   \<and> (unat tc < 2 ^ 32 \<longrightarrow> GetNumThreads (Create_count tc h w) = tc)
   \<and> (step act sys = Some sys' \<longrightarrow> GetNumThreads (pool sys') = GetNumThreads (pool sys))"
proof (intro conjI impI)
  show "unat (GetNumThreads (Create_cores cores tpc adj h w)) =
      unat tpc * nat (max 1 (int (unat cores) + sint adj))"
    if "int (unat cores) + sint adj < 2 ^ 31
      \<and> unat tpc * nat (max 1 (int (unat cores) + sint adj)) < 2 ^ 32"
    using threads_two_args [OF conjunct1 [OF that] conjunct2 [OF that]] .
  show "GetNumThreads (Create_count tc h w) = tc" if "unat tc < 2 ^ 32"
    using that by (rule threads_one_arg)
  show "GetNumThreads (pool sys') = GetNumThreads (pool sys)" if "step act sys = Some sys'"
    using step_threads [OF that] by (simp add: GetNumThreads_def)
qed

theorem thread_count_witness:
  "unat (GetNumThreads (Create_cores 8 2 0 no_counters () :: (unit, unit) CThreadPool)) = 16
   \<and> unat (GetNumThreads (Create_cores 8 1 (- 6) no_counters () :: (unit, unit) CThreadPool)) = 2
   \<and> GetNumThreads (Create_count 5 no_counters () :: (unit, unit) CThreadPool) = 5
   \<and> GetNumThreads (pool (after_schedule 1 (enqueue_two done_at_once @ [Worker 0]))) =
       GetNumThreads (pool (after_schedule 1 (enqueue_two done_at_once)))"
proof -
  have s: "step (Worker 0) (after_schedule 1 (enqueue_two done_at_once)) =
            Some (after_schedule 1 (enqueue_two done_at_once @ [Worker 0]))"
    by (simp add: eval_defs)
  have 1: "unat (GetNumThreads (Create_cores 8 2 0 no_counters () :: (unit, unit) CThreadPool)) = 16"
    using thread_count_resolution [where cores = 8 and tpc = 2 and adj = 0 and h = no_counters and w = "()",
             THEN conjunct1]
    by simp
  have 2: "unat (GetNumThreads (Create_cores 8 1 (- 6) no_counters () :: (unit, unit) CThreadPool)) = 2"
    using thread_count_resolution [where cores = 8 and tpc = 1 and adj = "- 6" and h = no_counters and w = "()",
             THEN conjunct1]
    by simp
  have 3: "GetNumThreads (Create_count 5 no_counters () :: (unit, unit) CThreadPool) = 5"
    using thread_count_resolution [where tc = 5 and h = no_counters and w = "()",
             THEN conjunct2, THEN conjunct1]
    by simp
  have 4: "GetNumThreads (pool (after_schedule 1 (enqueue_two done_at_once @ [Worker 0]))) =
       GetNumThreads (pool (after_schedule 1 (enqueue_two done_at_once)))"
    using thread_count_resolution [where act = "Worker 0"
             and sys = "after_schedule 1 (enqueue_two done_at_once)"
             and sys' = "after_schedule 1 (enqueue_two done_at_once @ [Worker 0])",
             THEN conjunct2, THEN conjunct2] s
    by simp
  show ?thesis using 1 2 3 4 by simp
qed

end
